theory Spec2Isabelle
  imports Main "HOL-Library.Sublist" "HOL-Library.AList" "HOL-Library.Multiset"
begin

section \<open>Python strings\<close>

text \<open>
  A Python \<open>str\<close> is a sequence of Unicode code points; it is modelled as a list of
  natural numbers, one per code point. \<open>U\<close> turns an ASCII literal into such a list.
  A \<open>bytes\<close> object is a list of 8-bit characters.
\<close>

type_synonym pystr = "nat list"

type_synonym bytes = "char list"

definition U :: "string \<Rightarrow> pystr" where
  "U s = map of_char s"

text \<open>
  The code points for which \<open>str.isspace\<close> holds. \<open>str.strip()\<close> removes exactly these,
  and the regular expression class \<open>\s\<close> of a \<open>str\<close> pattern matches exactly these.
\<close>

definition is_space :: "nat \<Rightarrow> bool" where
  "is_space c \<longleftrightarrow>
     (9 \<le> c \<and> c \<le> 13) \<or> (28 \<le> c \<and> c \<le> 32) \<or> c = 133 \<or> c = 160 \<or> c = 5760 \<or>
     (8192 \<le> c \<and> c \<le> 8202) \<or> c = 8232 \<or> c = 8233 \<or> c = 8239 \<or> c = 8287 \<or> c = 12288"

text \<open>The line boundaries of \<open>str.splitlines\<close> (\<open>\r\n\<close> counts as one boundary).\<close>

definition is_linebreak :: "nat \<Rightarrow> bool" where
  "is_linebreak c \<longleftrightarrow>
     (10 \<le> c \<and> c \<le> 13) \<or> (28 \<le> c \<and> c \<le> 30) \<or> c = 133 \<or> c = 8232 \<or> c = 8233"

definition py_lstrip :: "pystr \<Rightarrow> pystr" where
  "py_lstrip s = dropWhile is_space s"

definition py_rstrip :: "pystr \<Rightarrow> pystr" where
  "py_rstrip s = rev (dropWhile is_space (rev s))"

definition py_strip :: "pystr \<Rightarrow> pystr" where
  "py_strip s = py_rstrip (py_lstrip s)"

text \<open>
  \<open>str.splitlines()\<close>: \<open>cur\<close> holds the characters of the line being read, last one
  first. A boundary at the very end of the text does not open a further, empty line.
\<close>

fun splitlines_from :: "pystr \<Rightarrow> pystr \<Rightarrow> pystr list" where
  "splitlines_from cur [] = (if cur = [] then [] else [rev cur])"
| "splitlines_from cur [c] =
     (if is_linebreak c then [rev cur] else [rev (c # cur)])"
| "splitlines_from cur (c # d # cs) =
     (if c = 13 \<and> d = 10 then rev cur # splitlines_from [] cs
      else if is_linebreak c then rev cur # splitlines_from [] (d # cs)
      else splitlines_from (c # cur) (d # cs))"

definition py_splitlines :: "pystr \<Rightarrow> pystr list" where
  "py_splitlines s = splitlines_from [] s"

text \<open>\<open>sep.join(xs)\<close>.\<close>

fun py_join :: "pystr \<Rightarrow> pystr list \<Rightarrow> pystr" where
  "py_join sep [] = []"
| "py_join sep [x] = x"
| "py_join sep (x # y # ys) = x @ sep @ py_join sep (y # ys)"

text \<open>
  \<open>t in s\<close> for two strings is \<^term>\<open>sublist t s\<close> (a contiguous occurrence), and
  \<open>s.startswith(t)\<close> is \<^term>\<open>prefix t s\<close>. \<open>next((x for x in xs if p(x)), None)\<close> is
  \<^term>\<open>List.find p xs\<close>.
\<close>

text \<open>Truth value of an \<open>Optional[str]\<close>: \<open>None\<close> and the empty string are false.\<close>

fun truthy_opt :: "pystr option \<Rightarrow> bool" where
  "truthy_opt None = False"
| "truthy_opt (Some s) = (s \<noteq> [])"

section \<open>Small utilities\<close>

text \<open>\<open>[ln.strip() for ln in text.strip().splitlines() if ln.strip()]\<close>\<close>

definition clean_lines :: "pystr \<Rightarrow> pystr list" where
  "clean_lines text =
     map py_strip (filter (\<lambda>ln. py_strip ln \<noteq> []) (py_splitlines (py_strip text)))"

section \<open>Type/source detector\<close>

text \<open>
  The loop over \<open>source_lines\<close>: in each line the first keyword of the list that
  occurs in it is the hit; the loop stops at the first line whose hit is a non-empty
  string.
\<close>

fun scan_source_lines :: "pystr list \<Rightarrow> pystr list \<Rightarrow> pystr option" where
  "scan_source_lines source_keywords [] = None"
| "scan_source_lines source_keywords (ln # lns) =
     (let hit = List.find (\<lambda>s. sublist s ln) source_keywords
      in if truthy_opt hit then hit else scan_source_lines source_keywords lns)"

definition detect_type_and_source ::
  "pystr \<Rightarrow> pystr list \<Rightarrow> pystr list \<Rightarrow> pystr option \<times> pystr option" where
  "detect_type_and_source text type_keywords source_keywords =
     (let lines = clean_lines text;
          scan_for_type = py_join (U '' '') (take 2 lines);
          article_type = List.find (\<lambda>t. sublist t scan_for_type) type_keywords;
          source_lines = (if truthy_opt article_type then take 2 (drop 1 lines) else take 2 lines);
          article_source = scan_source_lines source_keywords source_lines
      in (article_type, article_source))"

text \<open>
  The detector as the specification words it: the source keyword is looked up in the
  joined window of the shifted lines, by the rule used for the type.
\<close>

definition detect_type_and_source_spec ::
  "pystr \<Rightarrow> pystr list \<Rightarrow> pystr list \<Rightarrow> pystr option \<times> pystr option" where
  "detect_type_and_source_spec text type_keywords source_keywords =
     (let lines = clean_lines text;
          article_type = List.find (\<lambda>t. sublist t (py_join (U '' '') (take 2 lines))) type_keywords;
          window = py_join (U '' '')
             (if article_type \<noteq> None then take 2 (drop 1 lines) else take 2 lines)
      in (article_type, List.find (\<lambda>s. sublist s window) source_keywords))"


subsection \<open>The detector scans the source lines one by one\<close>

text \<open>
  The keyword \<open>U+0642 U+0631 U+0627 U+0631\<close> (the Arabic word for "decision"), the
  keyword \<open>U+0628 U+0644 U+062F U+064A U+0629\<close> ("municipality"), and the two-line
  document of the specification's example, as code points.
\<close>

definition kw_qarar :: pystr where
  "kw_qarar = [1602, 1585, 1575, 1585]"

definition kw_baladiya :: pystr where
  "kw_baladiya = [1576, 1604, 1583, 1610, 1577]"

definition example_document :: pystr where
  "example_document =
     [1602, 1585, 1575, 1585, 32, 1585, 1602, 1605, 32, 49] @ [10] @
     [1589, 1575, 1583, 1585, 32, 1593, 1606, 32, 1576, 1604, 1583, 1610, 1577, 32,
      1576, 1610, 1585, 1608, 1578]"

lemmas str_defs = U_def py_strip_def py_lstrip_def py_rstrip_def py_splitlines_def
  is_space_def is_linebreak_def clean_lines_def sublist_Cons_right

lemma scan_source_lines_find:
  "scan_source_lines sks ls =
     Option.bind (List.find truthy_opt (map (\<lambda>ln. List.find (\<lambda>k. sublist k ln) sks) ls)) id"
  by (induction ls) (auto simp: Let_def)

lemma scan_source_lines_Some:
  "scan_source_lines sks ls = Some s \<longleftrightarrow>
     s \<noteq> [] \<and> (\<exists>i<length ls. List.find (\<lambda>k. sublist k (ls ! i)) sks = Some s \<and>
        (\<forall>j<i. \<not> truthy_opt (List.find (\<lambda>k. sublist k (ls ! j)) sks)))"
proof -
  let ?hit = "\<lambda>ln. List.find (\<lambda>k. sublist k ln) sks"
  have "scan_source_lines sks ls = Some s \<longleftrightarrow> List.find truthy_opt (map ?hit ls) = Some (Some s)"
    by (cases "List.find truthy_opt (map ?hit ls)") (auto simp: scan_source_lines_find)
  also have "\<dots> \<longleftrightarrow> (\<exists>i<length ls. truthy_opt (?hit (ls ! i)) \<and> Some s = ?hit (ls ! i) \<and>
        (\<forall>j<i. \<not> truthy_opt (?hit (ls ! j))))"
    unfolding find_Some_iff by (intro ex_cong1) auto
  also have "\<dots> \<longleftrightarrow> s \<noteq> [] \<and> (\<exists>i<length ls. ?hit (ls ! i) = Some s \<and>
        (\<forall>j<i. \<not> truthy_opt (?hit (ls ! j))))"
    by (metis truthy_opt.simps(2))
  finally show ?thesis .
qed

text \<open>
  Claim C4, as the code has it. The type is the first keyword, in list order, that
  occurs in the window made of the first two cleaned lines joined by a space. The
  source is not looked up in a joined window: the source lines (index 1..2 when the
  type found is a non-empty string, index 0..1 otherwise) are scanned one after the
  other, the hit of a line is the first keyword in list order that occurs in that
  line, and the result is the hit of the earliest line whose hit is a non-empty
  string; there is no source when no line has one.
\<close>

theorem detect_type_and_source_line_by_line:
  assumes "detect_type_and_source text type_keywords source_keywords = (ty, src)"
  shows "let lines = clean_lines text;
             window = py_join (U '' '') (take 2 lines);
             source_lines = (if truthy_opt ty then take 2 (drop 1 lines) else take 2 lines)
         in ty = List.find (\<lambda>t. sublist t window) type_keywords \<and>
            (\<forall>s. src = Some s \<longleftrightarrow> s \<noteq> [] \<and>
               (\<exists>i<length source_lines.
                   List.find (\<lambda>k. sublist k (source_lines ! i)) source_keywords = Some s \<and>
                   (\<forall>j<i. \<not> truthy_opt
                      (List.find (\<lambda>k. sublist k (source_lines ! j)) source_keywords))))"
proof -
  define lines where "lines = clean_lines text"
  define source_lines where
    "source_lines = (if truthy_opt ty then take 2 (drop 1 lines) else take 2 lines)"
  from assms have ty: "ty = List.find (\<lambda>t. sublist t (py_join (U '' '') (take 2 lines))) type_keywords"
    and src: "src = scan_source_lines source_keywords source_lines"
    by (auto simp: detect_type_and_source_def Let_def lines_def source_lines_def)
  show ?thesis
    unfolding Let_def lines_def [symmetric] source_lines_def [symmetric]
    using ty src scan_source_lines_Some [of source_keywords source_lines] by metis
qed

text \<open>
  The example of the specification: the two lines of \<^const>\<open>example_document\<close> with the
  type keyword \<^const>\<open>kw_qarar\<close> and the source keyword \<^const>\<open>kw_baladiya\<close> give both
  keywords back.
\<close>

theorem detect_type_and_source_line_by_line_witness:
  "detect_type_and_source example_document [kw_qarar] [kw_baladiya]
     = (Some kw_qarar, Some kw_baladiya) \<and>
   Some kw_qarar = List.find
     (\<lambda>t. sublist t (py_join (U '' '') (take 2 (clean_lines example_document)))) [kw_qarar]"
proof -
  have h: "detect_type_and_source example_document [kw_qarar] [kw_baladiya]
     = (Some kw_qarar, Some kw_baladiya)"
    by (simp add: detect_type_and_source_def str_defs example_document_def kw_qarar_def
        kw_baladiya_def)
  from detect_type_and_source_line_by_line [OF h]
  have t: "Some kw_qarar = List.find
     (\<lambda>t. sublist t (py_join (U '' '') (take 2 (clean_lines example_document)))) [kw_qarar]"
    unfolding Let_def by (rule conjunct1)
  show ?thesis by (rule conjI [OF h t])
qed

text \<open>
  Claim C4 as the specification states it fails: in the document with the lines \<open>B\<close> and
  \<open>A\<close> and the source keywords \<open>A\<close>, \<open>B\<close>, the first keyword in list order found in the
  joined window is \<open>A\<close>, but the code answers \<open>B\<close>, the hit of the first line.
\<close>

theorem detect_source_joined_window_counterexample:
  "detect_type_and_source (U ''B'' @ [10] @ U ''A'') [] [U ''A'', U ''B'']
     = (None, Some (U ''B'')) \<and>
   detect_type_and_source_spec (U ''B'' @ [10] @ U ''A'') [] [U ''A'', U ''B'']
     = (None, Some (U ''A''))"
  by (simp add: detect_type_and_source_def detect_type_and_source_spec_def str_defs)


section \<open>Regular expressions\<close>

text \<open>
  The patterns of the program are sequences of literals, single-character classes
  under \<open>*\<close>, \<open>*?\<close> and \<open>+\<close>, an optional literal, one capture group and the anchors
  \<open>^\<close> and \<open>$\<close>, with an alternation at the top only. They are matched as Python's
  backtracking matcher does: \<^term>\<open>run\<close> lists every way to match a sequence from a
  state, in the order in which the matcher tries them, so that the head of the list
  is the match Python reports. All patterns with a dot are compiled with
  \<open>re.DOTALL\<close>, so the dot is any character; none is compiled with \<open>re.MULTILINE\<close>.
\<close>

text \<open>
  \<open>\d\<close> in a \<open>str\<close> pattern is any Unicode decimal digit (category Nd). The digits
  come in blocks of ten consecutive code points, zero first; these are the first code
  points of the blocks (Unicode 14.0, the table of CPython 3.11).
\<close>

definition nd_block_starts :: "nat list" where
  "nd_block_starts =
     [0x30, 0x660, 0x6F0, 0x7C0, 0x966, 0x9E6, 0xA66, 0xAE6, 0xB66, 0xBE6, 0xC66, 0xCE6,
      0xD66, 0xDE6, 0xE50, 0xED0, 0xF20, 0x1040, 0x1090, 0x17E0, 0x1810, 0x1946, 0x19D0,
      0x1A80, 0x1A90, 0x1B50, 0x1BB0, 0x1C40, 0x1C50, 0xA620, 0xA8D0, 0xA900, 0xA9D0,
      0xA9F0, 0xAA50, 0xABF0, 0xFF10, 0x104A0, 0x10D30, 0x11066, 0x110F0, 0x11136,
      0x111D0, 0x112F0, 0x11450, 0x114D0, 0x11650, 0x116C0, 0x11730, 0x118E0, 0x11950,
      0x11C50, 0x11D50, 0x11DA0, 0x16A60, 0x16AC0, 0x16B50, 0x1D7CE, 0x1D7D8, 0x1D7E2,
      0x1D7EC, 0x1D7F6, 0x1E140, 0x1E2F0, 0x1E950, 0x1FBF0]"

text \<open>The value of a decimal digit, \<open>None\<close> for any other code point.\<close>

definition py_decimal :: "nat \<Rightarrow> nat option" where
  "py_decimal c =
     map_option (\<lambda>b. c - b) (List.find (\<lambda>b. b \<le> c \<and> c < b + 10) nd_block_starts)"

datatype char_class = AnyChar | Whitespace | Digit

fun in_class :: "char_class \<Rightarrow> nat \<Rightarrow> bool" where
  "in_class AnyChar c = True"
| "in_class Whitespace c = is_space c"
| "in_class Digit c = (py_decimal c \<noteq> None)"

datatype rx_item =
    Lit pystr
  | Star char_class
  | StarLazy char_class
  | Plus char_class
  | Opt pystr
  | GroupOpen
  | GroupClose
  | Bos
  | Eos

text \<open>
  The state of a match attempt: whether it starts at position 0 of the subject, the
  text matched so far, the text still ahead, where group 1 opened in the matched
  text, and group 1 once it is closed.
\<close>

datatype mstate = MState (at_start: bool) (matched: pystr) (rest: pystr) (gopen: nat)
  (group1: "pystr option")

fun consume :: "nat \<Rightarrow> mstate \<Rightarrow> mstate" where
  "consume k (MState b m r g c) = MState b (m @ take k r) (drop k r) g c"

definition run_length :: "char_class \<Rightarrow> pystr \<Rightarrow> nat" where
  "run_length cl s = length (takeWhile (in_class cl) s)"

text \<open>
  The ways one item can match, in the order of the matcher: a greedy repetition
  tries the longest run first, a lazy one the shortest; \<open>$\<close> matches at the end and
  before a newline that ends the subject.
\<close>

fun step :: "rx_item \<Rightarrow> mstate \<Rightarrow> mstate list" where
  "step (Lit l) st = (if prefix l (rest st) then [consume (length l) st] else [])"
| "step (Star cl) st = map (\<lambda>k. consume k st) (rev [0..<Suc (run_length cl (rest st))])"
| "step (StarLazy cl) st = map (\<lambda>k. consume k st) [0..<Suc (run_length cl (rest st))]"
| "step (Plus cl) st = map (\<lambda>k. consume k st) (rev [1..<Suc (run_length cl (rest st))])"
| "step (Opt l) st = (if prefix l (rest st) then [consume (length l) st] else []) @ [st]"
| "step GroupOpen (MState b m r g c) = [MState b m r (length m) c]"
| "step GroupClose (MState b m r g c) = [MState b m r g (Some (drop g m))]"
| "step Bos st = (if at_start st \<and> matched st = [] then [st] else [])"
| "step Eos st = (if rest st = [] \<or> rest st = [10] then [st] else [])"

fun run :: "rx_item list \<Rightarrow> mstate \<Rightarrow> mstate list" where
  "run [] st = [st]"
| "run (i # is) st = concat (map (run is) (step i st))"

text \<open>
  A pattern is the list of its top-level alternatives. \<^term>\<open>re_results\<close> lists the
  matches that start at the head of \<open>s\<close>, in the matcher's order; \<open>b\<close> tells whether
  the head of \<open>s\<close> is position 0 of the subject.
\<close>

type_synonym pattern = "rx_item list list"

definition re_results :: "pattern \<Rightarrow> bool \<Rightarrow> pystr \<Rightarrow> mstate list" where
  "re_results alts b s = concat (map (\<lambda>a. run a (MState b [] s 0 None)) alts)"

text \<open>\<open>re.match(p, s)\<close>: the first match at position 0, if any.\<close>

definition re_match :: "pattern \<Rightarrow> pystr \<Rightarrow> mstate option" where
  "re_match alts s = (case re_results alts True s of [] \<Rightarrow> None | st # _ \<Rightarrow> Some st)"

text \<open>
  \<open>re.search(p, s)\<close>: the first match at the leftmost position that has one. \<open>pre\<close> is
  the text already passed.
\<close>

fun re_search_from :: "pattern \<Rightarrow> pystr \<Rightarrow> pystr \<Rightarrow> mstate option" where
  "re_search_from alts pre [] =
     (case re_results alts (pre = []) [] of [] \<Rightarrow> None | st # _ \<Rightarrow> Some st)"
| "re_search_from alts pre (c # cs) =
     (case re_results alts (pre = []) (c # cs) of
        [] \<Rightarrow> re_search_from alts (pre @ [c]) cs
      | st # _ \<Rightarrow> Some st)"

definition re_search :: "pattern \<Rightarrow> pystr \<Rightarrow> mstate option" where
  "re_search alts s = re_search_from alts [] s"

text \<open>Every match splits the text it started from into what it matched and the rest.\<close>

lemma consume_split: "matched (consume k st) @ rest (consume k st) = matched st @ rest st"
  by (cases st) simp

lemma step_split:
  "st' \<in> set (step i st) \<Longrightarrow> matched st' @ rest st' = matched st @ rest st"
  by (cases i; cases st) (auto split: if_splits)

lemma run_split:
  "st' \<in> set (run is st) \<Longrightarrow> matched st' @ rest st' = matched st @ rest st"
proof (induction "is" arbitrary: st)
  case Nil
  then show ?case by simp
next
  case (Cons i "is")
  then obtain st1 where "st1 \<in> set (step i st)" "st' \<in> set (run is st1)" by auto
  with Cons.IH [of st1] step_split [of st1 i st] show ?case by simp
qed

lemma re_results_split:
  "st \<in> set (re_results alts b s) \<Longrightarrow> matched st @ rest st = s"
  by (auto simp: re_results_def dest: run_split)

text \<open>
  \<open>re.sub(p, "", s)\<close>. With the empty replacement an empty match changes nothing,
  and after one the matcher must advance, so at each position the first non-empty
  match counts: it is removed and the scan goes on behind it.
\<close>

function re_sub_from :: "pattern \<Rightarrow> bool \<Rightarrow> pystr \<Rightarrow> pystr" where
  "re_sub_from alts b s =
     (case List.find (\<lambda>st. matched st \<noteq> []) (re_results alts b s) of
        Some st \<Rightarrow> re_sub_from alts False (rest st)
      | None \<Rightarrow> (case s of [] \<Rightarrow> [] | c # cs \<Rightarrow> c # re_sub_from alts False cs))"
  by pat_completeness auto
termination
proof (relation "measure (\<lambda>(alts, b, s). length s)")
  show "wf (measure (\<lambda>(alts, b, s). length s))" by simp
next
  fix alts b s st
  assume "List.find (\<lambda>st. matched st \<noteq> []) (re_results alts b s) = Some st"
  then have "st \<in> set (re_results alts b s)" "matched st \<noteq> []"
    by (auto simp: find_Some_iff)
  with re_results_split [of st alts b s] have "length (rest st) < length s"
    by (metis length_append length_greater_0_conv less_add_same_cancel2)
  then show "((alts, False, rest st), (alts, b, s)) \<in> measure (\<lambda>(alts, b, s). length s)"
    by simp
next
  fix alts b s c cs
  assume "s = c # cs"
  then show "((alts, False, cs), (alts, b, s)) \<in> measure (\<lambda>(alts, b, s). length s)"
    by simp
qed

definition re_sub :: "pattern \<Rightarrow> pystr \<Rightarrow> pystr" where
  "re_sub alts s = re_sub_from alts True s"


declare re_sub_from.simps [simp del]

text \<open>Below the Arabic block only the ASCII digits are decimal digits.\<close>

lemma py_decimal_ascii:
  "c < 1632 \<Longrightarrow> py_decimal c = (if 48 \<le> c \<and> c < 58 then Some (c - 48) else None)"
  by (simp add: py_decimal_def nd_block_starts_def)

lemmas rx_defs = re_search_def re_match_def re_results_def run_length_def re_sub_def
  re_sub_from.simps py_decimal_ascii

subsection \<open>Unfolding a pattern item by item\<close>

lemma concat_map_Nil: "(\<And>x. x \<in> set xs \<Longrightarrow> f x = []) \<Longrightarrow> concat (map f xs) = []"
  by (induction xs) auto

lemma greedy_last_only:
  assumes "\<And>k. k < n \<Longrightarrow> f k = []"
  shows "concat (map f (rev [m..<Suc n])) = (if m \<le> n then f n else [])"
proof (cases "m \<le> n")
  case True
  have "concat (map f (rev [m..<n])) = []"
    by (rule concat_map_Nil) (use assms in auto)
  with True show ?thesis by simp
next
  case False
  then show ?thesis by simp
qed

lemma run_Lit:
  "run (Lit l # is) st = (if prefix l (rest st) then run is (consume (length l) st) else [])"
  by simp

lemma run_Star: "run (Star cl # is) st =
    concat (map (\<lambda>k. run is (consume k st)) (rev [0..<Suc (run_length cl (rest st))]))"
  by (simp add: comp_def del: upt_Suc)

lemma run_StarLazy: "run (StarLazy cl # is) st =
    concat (map (\<lambda>k. run is (consume k st)) [0..<Suc (run_length cl (rest st))])"
  by (simp add: comp_def del: upt_Suc)

lemma run_Plus: "run (Plus cl # is) st =
    concat (map (\<lambda>k. run is (consume k st)) (rev [1..<Suc (run_length cl (rest st))]))"
  by (simp add: comp_def del: upt_Suc)

lemma run_Opt: "run (Opt l # is) st =
    (if prefix l (rest st) then run is (consume (length l) st) else []) @ run is st"
  by simp

lemma run_GroupOpen:
  "run (GroupOpen # is) (MState b m r g c) = run is (MState b m r (length m) c)"
  by simp

lemma run_GroupClose:
  "run (GroupClose # is) (MState b m r g c) = run is (MState b m r g (Some (drop g m)))"
  by simp

section \<open>Text assembler\<close>

text \<open>The exceptions that the modelled code can meet.\<close>

datatype py_exn =
    OSError
  | UnicodeDecodeError
  | JSONDecodeError
  | ValueError
  | RecursionError
  | AttributeError
  | TypeError
  | KeyError
  | IndexError
  | BotoError

text \<open>
  A folder is the list of its entries in the order in which \<open>Path.glob\<close> yields them;
  an entry is a file name with what \<open>read_text_file\<close> does on it: the decoded text, or
  the exception raised (the entry cannot be read, or is not UTF-8).
\<close>

type_synonym entry = "pystr \<times> (py_exn + pystr)"

type_synonym folder = "entry list"

text \<open>The glob \<open>*.txt\<close>, and the patterns \<open>\d+_\<close> and \<open>(\d+)_\<close>.\<close>

definition glob_txt :: "pystr \<Rightarrow> bool" where
  "glob_txt name = suffix (U ''.txt'') name"

definition digits_underscore :: pattern where
  "digits_underscore = [[Plus Digit, Lit (U ''_'')]]"

definition digits_group_underscore :: pattern where
  "digits_group_underscore = [[GroupOpen, Plus Digit, GroupClose, Lit (U ''_'')]]"

text \<open>
  \<open>int(s)\<close> for a string of decimal digits; any other character (and the empty
  string) raises \<open>ValueError\<close>. The limit of 4300 digits on the conversion is left
  out here: a file name is far shorter.
\<close>

fun digits_value :: "nat \<Rightarrow> pystr \<Rightarrow> nat option" where
  "digits_value acc [] = Some acc"
| "digits_value acc (c # cs) =
     (case py_decimal c of None \<Rightarrow> None | Some d \<Rightarrow> digits_value (10 * acc + d) cs)"

definition py_int :: "pystr \<Rightarrow> py_exn + nat" where
  "py_int s = (if s = [] then Inl ValueError
               else case digits_value 0 s of None \<Rightarrow> Inl ValueError | Some n \<Rightarrow> Inr n)"

text \<open>The sort key \<open>int(re.match(r"(\d+)_", x.name).group(1))\<close>.\<close>

definition sort_key_of :: "pystr \<Rightarrow> py_exn + nat" where
  "sort_key_of name =
     (case re_match digits_group_underscore name of
        None \<Rightarrow> Inl AttributeError
      | Some st \<Rightarrow> (case group1 st of None \<Rightarrow> Inl AttributeError | Some ds \<Rightarrow> py_int ds))"

text \<open>
  \<open>sorted(xs, key=...)\<close> computes the key of every element, in list order, and then
  sorts stably by the keys.
\<close>

fun decorate :: "entry list \<Rightarrow> py_exn + (nat \<times> entry) list" where
  "decorate [] = Inr []"
| "decorate (p # ps) =
     (case sort_key_of (fst p) of
        Inl e \<Rightarrow> Inl e
      | Inr k \<Rightarrow> (case decorate ps of Inl e \<Rightarrow> Inl e | Inr r \<Rightarrow> Inr ((k, p) # r)))"

definition sorted_by_prefix :: "entry list \<Rightarrow> py_exn + entry list" where
  "sorted_by_prefix ps =
     (case decorate ps of Inl e \<Rightarrow> Inl e | Inr r \<Rightarrow> Inr (map snd (sort_key fst r)))"

text \<open>\<open>[read_text_file(p).strip() for p in txts]\<close>: the first failing read raises.\<close>

fun read_parts :: "entry list \<Rightarrow> py_exn + pystr list" where
  "read_parts [] = Inr []"
| "read_parts (p # ps) =
     (case snd p of
        Inl e \<Rightarrow> Inl e
      | Inr text \<Rightarrow> (case read_parts ps of Inl e \<Rightarrow> Inl e | Inr r \<Rightarrow> Inr (py_strip text # r)))"

text \<open>\<open>combine_article_texts\<close>; the warning logged for an empty selection has no effect
  on the result.\<close>

definition combine_article_texts :: "folder \<Rightarrow> py_exn + pystr" where
  "combine_article_texts article_folder =
     (case sorted_by_prefix
             (filter (\<lambda>p. glob_txt (fst p) \<and> re_match digits_underscore (fst p) \<noteq> None)
                article_folder) of
        Inl e \<Rightarrow> Inl e
      | Inr txts \<Rightarrow>
          if txts = [] then Inr []
          else (case read_parts txts of
                  Inl e \<Rightarrow> Inl e
                | Inr parts \<Rightarrow> Inr (py_strip (py_join (U '' '') parts))))"


subsection \<open>The files that are joined, and their order\<close>

text \<open>
  What the two patterns decide, said without the matcher: a name is selected when it
  starts with one decimal digit or more followed by an underscore, and its key is the
  number those digits write.
\<close>

definition is_digit :: "nat \<Rightarrow> bool" where
  "is_digit c \<longleftrightarrow> py_decimal c \<noteq> None"

definition has_numeric_prefix :: "pystr \<Rightarrow> bool" where
  "has_numeric_prefix name \<longleftrightarrow>
     takeWhile is_digit name \<noteq> [] \<and> prefix (U ''_'') (dropWhile is_digit name)"

lemma underscore_not_digit: "\<not> is_digit 95"
  by (simp add: is_digit_def py_decimal_def nd_block_starts_def)

lemma drop_run_not_underscore:
  assumes "k < length (takeWhile is_digit s)"
  shows "\<not> prefix [95] (drop k s)"
proof -
  from assms have "k < length s" using length_takeWhile_le [of is_digit s] by linarith
  then have d: "drop k s = s ! k # drop (Suc k) s" by (simp add: Cons_nth_drop_Suc)
  from assms have "is_digit (takeWhile is_digit s ! k)" using nth_mem set_takeWhileD by metis
  with assms have "is_digit (s ! k)" by (simp add: takeWhile_nth)
  with d underscore_not_digit show ?thesis by auto
qed

lemma in_class_Digit: "in_class Digit = is_digit"
  by (auto simp: is_digit_def fun_eq_iff)

lemma run_plus_digit_underscore:
  "run (Plus Digit # GroupClose # [Lit [95]]) (MState b [] s 0 c) =
     (if has_numeric_prefix s
      then [MState b (takeWhile is_digit s @ [95]) (drop 1 (dropWhile is_digit s)) 0 (Some (takeWhile is_digit s))]
      else [])"
proof -
  let ?n = "length (takeWhile is_digit s)"
  let ?f = "\<lambda>k. run (GroupClose # [Lit [95]]) (consume k (MState b [] s 0 c))"
  have f: "?f k = (if prefix [95] (drop k s) then [MState b (take k s @ [95]) (drop 1 (drop k s)) 0 (Some (take k s))] else [])" for k
    by (auto simp: prefix_def)
  have small: "?f k = []" if "k < ?n" for k
    unfolding f using drop_run_not_underscore [OF that] by simp
  have tk: "take ?n s = takeWhile is_digit s" "drop ?n s = dropWhile is_digit s"
    using takeWhile_eq_take [of is_digit s] dropWhile_eq_drop [of is_digit s] by simp_all
  have "run (Plus Digit # GroupClose # [Lit [95]]) (MState b [] s 0 c) = concat (map ?f (rev [1..<Suc ?n]))"
    unfolding run_Plus by (simp only: run_length_def in_class_Digit mstate.sel)
  also have "\<dots> = (if 1 \<le> ?n then ?f ?n else [])"
    by (rule greedy_last_only) (rule small)
  also have "\<dots> = (if has_numeric_prefix s
      then [MState b (takeWhile is_digit s @ [95]) (drop 1 (dropWhile is_digit s)) 0 (Some (takeWhile is_digit s))]
      else [])"
    unfolding f tk by (auto simp: has_numeric_prefix_def U_def Suc_le_eq)
  finally show ?thesis .
qed


lemma run_plus_digit_plain:
  "run [Plus Digit, Lit [95]] (MState b [] s g c) =
     (if has_numeric_prefix s
      then [MState b (takeWhile is_digit s @ [95]) (drop 1 (dropWhile is_digit s)) g c]
      else [])"
proof -
  let ?n = "length (takeWhile is_digit s)"
  let ?f = "\<lambda>k. run [Lit [95]] (consume k (MState b [] s g c))"
  have f: "?f k = (if prefix [95] (drop k s) then [MState b (take k s @ [95]) (drop 1 (drop k s)) g c] else [])" for k
    by (auto simp: prefix_def)
  have small: "?f k = []" if "k < ?n" for k
    unfolding f using drop_run_not_underscore [OF that] by simp
  have tk: "take ?n s = takeWhile is_digit s" "drop ?n s = dropWhile is_digit s"
    using takeWhile_eq_take [of is_digit s] dropWhile_eq_drop [of is_digit s] by simp_all
  have "run [Plus Digit, Lit [95]] (MState b [] s g c) = concat (map ?f (rev [1..<Suc ?n]))"
    unfolding run_Plus by (simp only: run_length_def in_class_Digit mstate.sel)
  also have "\<dots> = (if 1 \<le> ?n then ?f ?n else [])"
    by (rule greedy_last_only) (rule small)
  also have "\<dots> = (if has_numeric_prefix s
      then [MState b (takeWhile is_digit s @ [95]) (drop 1 (dropWhile is_digit s)) g c]
      else [])"
    unfolding f tk by (auto simp: has_numeric_prefix_def U_def Suc_le_eq)
  finally show ?thesis .
qed

lemma re_match_digits_underscore:
  "re_match digits_underscore name \<noteq> None \<longleftrightarrow> has_numeric_prefix name"
proof -
  have "re_results digits_underscore True name = run [Plus Digit, Lit [95]] (MState True [] name 0 None)"
    by (simp add: re_results_def digits_underscore_def U_def del: run.simps)
  then show ?thesis
    unfolding run_plus_digit_plain by (simp add: re_match_def)
qed

fun digits_nat :: "nat \<Rightarrow> pystr \<Rightarrow> nat" where
  "digits_nat acc [] = acc"
| "digits_nat acc (c # cs) =
     digits_nat (10 * acc + (case py_decimal c of None \<Rightarrow> 0 | Some d \<Rightarrow> d)) cs"

definition prefix_value :: "pystr \<Rightarrow> nat" where
  "prefix_value name = digits_nat 0 (takeWhile is_digit name)"

lemma digits_value_all_digits:
  "\<forall>c\<in>set ds. is_digit c \<Longrightarrow> digits_value acc ds = Some (digits_nat acc ds)"
  by (induction ds arbitrary: acc) (auto simp: is_digit_def)

lemma sort_key_of_prefix:
  assumes "has_numeric_prefix name"
  shows "sort_key_of name = Inr (prefix_value name)"
proof -
  have "re_match digits_group_underscore name =
          Some (MState True (takeWhile is_digit name @ [95]) (drop 1 (dropWhile is_digit name)) 0
                  (Some (takeWhile is_digit name)))"
    using assms run_plus_digit_underscore [of True name None]
    by (simp add: re_match_def re_results_def digits_group_underscore_def U_def run_GroupOpen del: run.simps)
  moreover have "digits_value 0 (takeWhile is_digit name) = Some (prefix_value name)"
    unfolding prefix_value_def by (rule digits_value_all_digits) (auto dest: set_takeWhileD)
  ultimately show ?thesis
    using assms by (simp add: sort_key_of_def py_int_def has_numeric_prefix_def)
qed

lemma decorate_selected:
  "\<forall>p\<in>set ps. has_numeric_prefix (fst p) \<Longrightarrow>
     decorate ps = Inr (map (\<lambda>p. (prefix_value (fst p), p)) ps)"
  by (induction ps) (auto simp: sort_key_of_prefix)

lemma sort_key_decorated_aux:
  "sort_key fst (map (\<lambda>p. (f p, p)) xs) = map (\<lambda>p. (f p, p)) (sort_key f xs)"
proof (induction xs)
  case Nil
  then show ?case by simp
next
  case (Cons x xs)
  have "insort_key fst (f x, x) (map (\<lambda>p. (f p, p)) ys) = map (\<lambda>p. (f p, p)) (insort_key f x ys)" for ys
    by (induction ys) auto
  with Cons show ?case by simp
qed

lemma sort_key_decorated:
  "map snd (sort_key fst (map (\<lambda>p. (f p, p)) xs)) = sort_key f xs"
  by (simp add: sort_key_decorated_aux comp_def)

lemma read_parts_texts:
  "map snd ps = map Inr texts \<Longrightarrow> read_parts ps = Inr (map py_strip texts)"
  by (induction ps arbitrary: texts) auto

definition numbered_txt_files :: "folder \<Rightarrow> entry list" where
  "numbered_txt_files dir =
     sort_key (\<lambda>p. prefix_value (fst p))
       (filter (\<lambda>p. glob_txt (fst p) \<and> has_numeric_prefix (fst p)) dir)"

text \<open>
  Claim C5, as the code has it. The files joined are those matching \<open>*.txt\<close> whose
  name has a numeric prefix, sorted (stably) by ascending value of the prefix; when
  all of them can be read, the result is the stripped contents joined with one space,
  and stripped once more as a whole. With no such file the result is the empty
  string.
\<close>

theorem combine_article_texts_numeric_order:
  assumes "map snd (numbered_txt_files dir) = map Inr texts"
  shows "combine_article_texts dir = Inr (py_strip (py_join (U '' '') (map py_strip texts))) \<and>
         sorted (map (\<lambda>p. prefix_value (fst p)) (numbered_txt_files dir)) \<and>
         mset (numbered_txt_files dir) =
           mset (filter (\<lambda>p. glob_txt (fst p) \<and> has_numeric_prefix (fst p)) dir)"
proof -
  let ?sel = "filter (\<lambda>p. glob_txt (fst p) \<and> has_numeric_prefix (fst p)) dir"
  have sel: "filter (\<lambda>p. glob_txt (fst p) \<and> re_match digits_underscore (fst p) \<noteq> None) dir = ?sel"
    by (simp add: re_match_digits_underscore del: not_None_eq)
  have "decorate ?sel = Inr (map (\<lambda>p. (prefix_value (fst p), p)) ?sel)"
    by (rule decorate_selected) simp
  then have srt: "sorted_by_prefix ?sel = Inr (numbered_txt_files dir)"
    by (simp add: sorted_by_prefix_def sort_key_decorated numbered_txt_files_def)
  have rd: "read_parts (numbered_txt_files dir) = Inr (map py_strip texts)"
    using assms by (rule read_parts_texts)
  have "combine_article_texts dir = Inr (py_strip (py_join (U '' '') (map py_strip texts)))"
  proof (cases "numbered_txt_files dir = []")
    case True
    with assms have "texts = []" by simp
    with True srt sel show ?thesis
      by (simp add: combine_article_texts_def py_strip_def py_lstrip_def py_rstrip_def)
  next
    case False
    with srt sel rd show ?thesis by (simp add: combine_article_texts_def)
  qed
  then show ?thesis by (simp add: numbered_txt_files_def)
qed


text \<open>
  The assembler as the specification words it: every file with a numeric prefix, by
  ascending prefix, each stripped, joined with one space.
\<close>

definition combine_article_texts_spec :: "folder \<Rightarrow> py_exn + pystr" where
  "combine_article_texts_spec dir =
     (case read_parts (sort_key (\<lambda>p. prefix_value (fst p))
              (filter (\<lambda>p. has_numeric_prefix (fst p)) dir)) of
        Inl e \<Rightarrow> Inl e
      | Inr parts \<Rightarrow> Inr (py_join (U '' '') parts))"

definition example_folder :: folder where
  "example_folder =
     [(U ''2_b.txt'', Inr (U '' two '')), (U ''notes.txt'', Inr (U ''n'')),
      (U ''10_a.txt'', Inr (U ''ten'')), (U ''1_x.txt'', Inr (U ''one'' @ [10])),
      (U ''3_c.md'', Inr (U ''md''))]"

lemma is_digit_ascii: "c < 1632 \<Longrightarrow> is_digit c \<longleftrightarrow> 48 \<le> c \<and> c < 58"
  by (simp add: is_digit_def py_decimal_ascii)

lemmas asm_defs = combine_article_texts_def sorted_by_prefix_def sort_key_of_def py_int_def
  glob_txt_def digits_underscore_def digits_group_underscore_def suffix_to_prefix

text \<open>
  The folder of the specification's example, with two files more that are not
  selected: the files are joined in the order \<open>1_x.txt\<close>, \<open>2_b.txt\<close>, \<open>10_a.txt\<close>.
\<close>

theorem combine_article_texts_numeric_order_witness:
  "combine_article_texts example_folder = Inr (U ''one two ten'') \<and>
   map fst (numbered_txt_files example_folder) = [U ''1_x.txt'', U ''2_b.txt'', U ''10_a.txt'']"
proof -
  have n: "numbered_txt_files example_folder =
      [(U ''1_x.txt'', Inr (U ''one'' @ [10])), (U ''2_b.txt'', Inr (U '' two '')),
       (U ''10_a.txt'', Inr (U ''ten''))]"
    by (simp add: numbered_txt_files_def example_folder_def glob_txt_def suffix_to_prefix
        has_numeric_prefix_def prefix_value_def is_digit_ascii py_decimal_ascii U_def)
  then have h: "map snd (numbered_txt_files example_folder) =
      map Inr [U ''one'' @ [10], U '' two '', U ''ten'']"
    by simp
  from combine_article_texts_numeric_order [OF h]
  have "combine_article_texts example_folder =
      Inr (py_strip (py_join (U '' '') (map py_strip [U ''one'' @ [10], U '' two '', U ''ten''])))"
    by (rule conjunct1)
  then have c: "combine_article_texts example_folder = Inr (U ''one two ten'')"
    by (simp add: str_defs)
  from n have m: "map fst (numbered_txt_files example_folder) =
      [U ''1_x.txt'', U ''2_b.txt'', U ''10_a.txt'']"
    by simp
  show ?thesis by (rule conjI [OF c m])
qed

text \<open>
  Claim C5 as the specification states it fails: when the first file is empty, the
  stripped contents joined with one space start with that space, and the code strips
  it.
\<close>

theorem combine_article_texts_join_counterexample:
  "combine_article_texts [(U ''1_a.txt'', Inr []), (U ''2_b.txt'', Inr (U ''x''))] = Inr (U ''x'') \<and>
   combine_article_texts_spec [(U ''1_a.txt'', Inr []), (U ''2_b.txt'', Inr (U ''x''))]
     = Inr (U '' x'')"
  by (simp add: asm_defs combine_article_texts_spec_def has_numeric_prefix_def prefix_value_def
      is_digit_ascii rx_defs str_defs)


section \<open>JSON decoding\<close>

text \<open>
  \<open>json.loads\<close> on a \<open>str\<close>, as CPython's decoder reads it. A number with a fraction
  or an exponent becomes a float: \<open>JFloat neg m e\<close> stands for the double nearest to
  \<open>m * 10^e\<close>, negated when \<open>neg\<close> holds, and \<open>JInf neg\<close> for the infinity that a
  literal too large for a double is read as. \<open>NaN\<close>, \<open>Infinity\<close> and \<open>-Infinity\<close> are
  accepted. An object is the list of its items in insertion order, each key once.
\<close>

datatype jvalue =
    JNull
  | JBool bool
  | JInt int
  | JFloat bool nat int
  | JNaN
  | JInf bool
  | JStr pystr
  | JArr "jvalue list"
  | JObj "(pystr \<times> jvalue) list"

text \<open>
  The tokens of a document. \<open>TBigInt\<close> is an integer literal of more digits than
  \<open>int\<close> converts (the conversion raises \<open>ValueError\<close>), \<open>TBad\<close> is text that starts
  no token; nothing is read behind it.
\<close>

datatype token =
    TLBrace | TRBrace | TLBracket | TRBracket | TComma | TColon
  | TValue jvalue
  | TBigInt
  | TBad

definition int_max_str_digits :: nat where
  "int_max_str_digits = 4300"

definition is_ascii_digit :: "nat \<Rightarrow> bool" where
  "is_ascii_digit c \<longleftrightarrow> 48 \<le> c \<and> c \<le> 57"

fun ascii_digits_value :: "nat \<Rightarrow> pystr \<Rightarrow> nat" where
  "ascii_digits_value acc [] = acc"
| "ascii_digits_value acc (c # cs) = ascii_digits_value (10 * acc + (c - 48)) cs"

definition hex_digit :: "nat \<Rightarrow> nat option" where
  "hex_digit c =
     (if 48 \<le> c \<and> c \<le> 57 then Some (c - 48)
      else if 97 \<le> c \<and> c \<le> 102 then Some (c - 87)
      else if 65 \<le> c \<and> c \<le> 70 then Some (c - 55)
      else None)"

fun hex4 :: "pystr \<Rightarrow> nat option" where
  "hex4 (a # b # c # d # r) =
     (case (hex_digit a, hex_digit b, hex_digit c, hex_digit d) of
        (Some w, Some x, Some y, Some z) \<Rightarrow> Some (((w * 16 + x) * 16 + y) * 16 + z)
      | _ \<Rightarrow> None)"
| "hex4 s = None"

text \<open>The character after a backslash, other than \<open>u\<close>.\<close>

definition escape_char :: "nat \<Rightarrow> nat option" where
  "escape_char e =
     (if e = 34 \<or> e = 92 \<or> e = 47 then Some e
      else if e = 98 then Some 8
      else if e = 102 then Some 12
      else if e = 110 then Some 10
      else if e = 114 then Some 13
      else if e = 116 then Some 9
      else None)"

text \<open>A \<open>\uXXXX\<close> escape of a low surrogate at the head of the text.\<close>

definition low_surrogate_escape :: "pystr \<Rightarrow> nat option" where
  "low_surrogate_escape s =
     (case s of
        b # u # r \<Rightarrow>
          (if b = 92 \<and> u = 117
           then (case hex4 r of
                   Some lo \<Rightarrow> if 0xDC00 \<le> lo \<and> lo < 0xE000 then Some lo else None
                 | None \<Rightarrow> None)
           else None)
      | _ \<Rightarrow> None)"

text \<open>
  The body of a string literal, behind its opening quote (strict mode): the decoded
  string and the text behind the closing quote. \<open>acc\<close> holds the characters read,
  last one first.
\<close>

function scanstring :: "pystr \<Rightarrow> pystr \<Rightarrow> (pystr \<times> pystr) option" where
  "scanstring acc [] = None"
| "scanstring acc (c # cs) =
     (if c = 34 then Some (rev acc, cs)
      else if c = 92 then
        (case cs of
           [] \<Rightarrow> None
         | e # r \<Rightarrow>
             if e = 117 then
               (case hex4 r of
                  None \<Rightarrow> None
                | Some hi \<Rightarrow>
                    (case (if 0xD800 \<le> hi \<and> hi < 0xDC00
                           then low_surrogate_escape (drop 4 r) else None) of
                       Some lo \<Rightarrow>
                         scanstring ((0x10000 + (hi - 0xD800) * 0x400 + (lo - 0xDC00)) # acc)
                           (drop 10 r)
                     | None \<Rightarrow> scanstring (hi # acc) (drop 4 r)))
             else (case escape_char e of
                     None \<Rightarrow> None
                   | Some x \<Rightarrow> scanstring (x # acc) r))
      else if c < 32 then None
      else scanstring (c # acc) cs)"
  by pat_completeness auto
termination
  by (relation "measure (\<lambda>(acc, s). length s)") auto

lemma scanstring_rest:
  "scanstring acc s = Some (x, rest_text) \<Longrightarrow> length rest_text < length s"
proof (induction acc s rule: scanstring.induct)
  case (1 acc)
  then show ?case by simp
next
  case (2 acc c cs)
  show ?case
  proof (cases "c = 34")
    case True
    with "2.prems" show ?thesis by auto
  next
    case n34: False
    show ?thesis
    proof (cases "c = 92")
      case False
      with n34 "2.prems" "2.IH"(4) show ?thesis
        by (auto split: if_splits)
    next
      case True
      with n34 "2.prems" obtain e r where cs: "cs = e # r"
        by (cases cs) auto
      show ?thesis
      proof (cases "e = 117")
        case False
        with True n34 cs "2.prems" "2.IH"(3) [of e r] show ?thesis
          by (auto split: option.splits)
      next
        case u: True
        with True n34 cs "2.prems" obtain hi where hi: "hex4 r = Some hi"
          by (auto split: option.splits)
        show ?thesis
        proof (cases "if 0xD800 \<le> hi \<and> hi < 0xDC00 then low_surrogate_escape (drop 4 r) else None")
          case None
          with u True n34 cs hi "2.prems"
          have "scanstring (hi # acc) (drop 4 r) = Some (x, rest_text)" by simp
          with "2.IH"(1) [OF n34 True cs u hi None]
          have "length rest_text < length (drop 4 r)" by simp
          with cs show ?thesis by simp
        next
          case (Some lo)
          with u True n34 cs hi "2.prems"
          have "scanstring ((0x10000 + (hi - 0xD800) * 0x400 + (lo - 0xDC00)) # acc) (drop 10 r)
                  = Some (x, rest_text)" by simp
          with "2.IH"(2) [OF n34 True cs u hi Some]
          have "length rest_text < length (drop 10 r)" by simp
          with cs show ?thesis by simp
        qed
      qed
    qed
  qed
qed

text \<open>The exponent part of a number: its value and its length, if there is one.\<close>

definition lex_exponent :: "pystr \<Rightarrow> (int \<times> nat) option" where
  "lex_exponent s =
     (case s of
        e # r \<Rightarrow>
          if e = 101 \<or> e = 69 then
            (let signed = (case r of g # _ \<Rightarrow> g = 43 \<or> g = 45 | [] \<Rightarrow> False);
                 negative = (case r of g # _ \<Rightarrow> g = 45 | [] \<Rightarrow> False);
                 ds = takeWhile is_ascii_digit (if signed then drop 1 r else r)
             in if ds = [] then None
                else Some (if negative then - int (ascii_digits_value 0 ds)
                           else int (ascii_digits_value 0 ds),
                           1 + (if signed then 1 else 0) + length ds))
          else None
      | [] \<Rightarrow> None)"

text \<open>
  The float of the decimal \<open>m * 10^e\<close>. The largest double is \<open>2^1024 - 2^971\<close>; a
  decimal from halfway between it and \<open>2^1024\<close> on is rounded to infinity.
\<close>

definition float_of_decimal :: "bool \<Rightarrow> nat \<Rightarrow> int \<Rightarrow> jvalue" where
  "float_of_decimal neg m e =
     (if (2 ^ 1024 - 2 ^ 970) * 10 ^ nat (- e) \<le> int m * 10 ^ nat e then JInf neg
      else JFloat neg m e)"

text \<open>
  A number at the head of the text: the token, and how many characters it takes.
  The integer part is \<open>0\<close> or starts with a digit from 1 to 9; a dot counts only
  before a digit, an exponent only with a digit in it.
\<close>

definition lex_number :: "pystr \<Rightarrow> (token \<times> nat) option" where
  "lex_number s =
     (let neg = (case s of c # _ \<Rightarrow> c = 45 | [] \<Rightarrow> False);
          s1 = (if neg then drop 1 s else s)
      in case s1 of
           [] \<Rightarrow> None
         | d # _ \<Rightarrow>
             if \<not> is_ascii_digit d then None
             else
               (let ip = (if d = 48 then [48] else takeWhile is_ascii_digit s1);
                    r1 = drop (length ip) s1;
                    fp = (case r1 of
                            p # d2 # _ \<Rightarrow>
                              if p = 46 \<and> is_ascii_digit d2
                              then takeWhile is_ascii_digit (drop 1 r1) else []
                          | _ \<Rightarrow> []);
                    nf = (if fp = [] then 0 else 1 + length fp);
                    ex = lex_exponent (drop nf r1);
                    n0 = (if neg then 1 else 0) + length ip + nf
                in case ex of
                     Some (e, ne) \<Rightarrow>
                       Some (TValue (float_of_decimal neg (ascii_digits_value 0 (ip @ fp))
                                       (e - int (length fp))), n0 + ne)
                   | None \<Rightarrow>
                       if fp \<noteq> [] then
                         Some (TValue (float_of_decimal neg (ascii_digits_value 0 (ip @ fp))
                                         (- int (length fp))), n0)
                       else if length ip > int_max_str_digits then Some (TBigInt, n0)
                       else Some (TValue (JInt (if neg then - int (ascii_digits_value 0 ip)
                                                else int (ascii_digits_value 0 ip))), n0)))"

text \<open>
  The tokens of a text. Only space, tab, line feed and carriage return separate
  tokens.
\<close>

function lex :: "pystr \<Rightarrow> token list" where
  "lex [] = []"
| "lex (c # cs) =
     (if c = 32 \<or> c = 9 \<or> c = 10 \<or> c = 13 then lex cs
      else if c = 123 then TLBrace # lex cs
      else if c = 125 then TRBrace # lex cs
      else if c = 91 then TLBracket # lex cs
      else if c = 93 then TRBracket # lex cs
      else if c = 44 then TComma # lex cs
      else if c = 58 then TColon # lex cs
      else if c = 34 then
        (case scanstring [] cs of
           None \<Rightarrow> [TBad]
         | Some (str, r) \<Rightarrow> TValue (JStr str) # lex r)
      else if prefix (U ''null'') (c # cs) then TValue JNull # lex (drop 3 cs)
      else if prefix (U ''true'') (c # cs) then TValue (JBool True) # lex (drop 3 cs)
      else if prefix (U ''false'') (c # cs) then TValue (JBool False) # lex (drop 4 cs)
      else if prefix (U ''NaN'') (c # cs) then TValue JNaN # lex (drop 2 cs)
      else if prefix (U ''Infinity'') (c # cs) then TValue (JInf False) # lex (drop 7 cs)
      else if prefix (U ''-Infinity'') (c # cs) then TValue (JInf True) # lex (drop 8 cs)
      else (case lex_number (c # cs) of
              None \<Rightarrow> [TBad]
            | Some (t, n) \<Rightarrow> t # lex (drop (n - 1) cs)))"
  by pat_completeness auto
termination
  by (relation "measure length") (auto dest: scanstring_rest)

text \<open>
  The parser reads the tokens from left to right with a stack of the containers that
  are open: an array with its elements so far, an object with its items so far, or
  an object whose next key has been read. A repeated key keeps its place and takes
  the later value, as a \<open>dict\<close> does.

  The decoder enters one more level of the interpreter's recursion for every array
  and object it opens, and the interpreter answers a level beyond its limit with
  \<open>RecursionError\<close>. The limit is 1000 levels, which the program does not change;
  the callers' frames and those of \<open>json.loads\<close> itself have taken some of them.
  \<open>nesting_limit\<close> is what CPython 3.11 leaves to the decoder in a function that is
  called from the top level of a program: 993 containers open at a time.
\<close>

definition nesting_limit :: nat where
  "nesting_limit = 993"

datatype frame =
    FArr "jvalue list"
  | FObj "(pystr \<times> jvalue) list"
  | FKey "(pystr \<times> jvalue) list" pystr

datatype expect =
    EValue
  | EValueOrClose
  | EKeyOrClose
  | EKey
  | EColon
  | ECommaOrClose
  | EDone jvalue

fun complete :: "jvalue \<Rightarrow> frame list \<Rightarrow> py_exn + (expect \<times> frame list)" where
  "complete v [] = Inr (EDone v, [])"
| "complete v (FArr vs # st) = Inr (ECommaOrClose, FArr (vs @ [v]) # st)"
| "complete v (FKey kvs k # st) = Inr (ECommaOrClose, FObj (AList.update k v kvs) # st)"
| "complete v (FObj kvs # st) = Inl JSONDecodeError"

fun value_start :: "frame list \<Rightarrow> token \<Rightarrow> py_exn + (expect \<times> frame list)" where
  "value_start st (TValue v) = complete v st"
| "value_start st TLBracket =
     (if length st < nesting_limit then Inr (EValueOrClose, FArr [] # st)
      else Inl RecursionError)"
| "value_start st TLBrace =
     (if length st < nesting_limit then Inr (EKeyOrClose, FObj [] # st)
      else Inl RecursionError)"
| "value_start st TBigInt = Inl ValueError"
| "value_start st t = Inl JSONDecodeError"

fun key_start :: "frame list \<Rightarrow> token \<Rightarrow> py_exn + (expect \<times> frame list)" where
  "key_start (FObj kvs # st) (TValue (JStr k)) = Inr (EColon, FKey kvs k # st)"
| "key_start st t = Inl JSONDecodeError"

fun json_step :: "expect \<Rightarrow> frame list \<Rightarrow> token \<Rightarrow> py_exn + (expect \<times> frame list)" where
  "json_step EValue st t = value_start st t"
| "json_step EValueOrClose (FArr vs # st) TRBracket = complete (JArr vs) st"
| "json_step EValueOrClose st t = value_start st t"
| "json_step EKeyOrClose (FObj kvs # st) TRBrace = complete (JObj kvs) st"
| "json_step EKeyOrClose st t = key_start st t"
| "json_step EKey st t = key_start st t"
| "json_step EColon st TColon = Inr (EValue, st)"
| "json_step ECommaOrClose (FArr vs # st) TComma = Inr (EValue, FArr vs # st)"
| "json_step ECommaOrClose (FArr vs # st) TRBracket = complete (JArr vs) st"
| "json_step ECommaOrClose (FObj kvs # st) TComma = Inr (EKey, FObj kvs # st)"
| "json_step ECommaOrClose (FObj kvs # st) TRBrace = complete (JObj kvs) st"
| "json_step e st t = Inl JSONDecodeError"

fun parse_tokens :: "expect \<Rightarrow> frame list \<Rightarrow> token list \<Rightarrow> py_exn + jvalue" where
  "parse_tokens (EDone v) st [] = Inr v"
| "parse_tokens e st [] = Inl JSONDecodeError"
| "parse_tokens e st (t # ts) =
     (case json_step e st t of
        Inl x \<Rightarrow> Inl x
      | Inr (e', st') \<Rightarrow> parse_tokens e' st' ts)"

text \<open>
  \<open>json.loads(s)\<close>. A text that starts with a byte order mark is refused like any
  other text that starts no value.
\<close>

definition json_loads :: "pystr \<Rightarrow> py_exn + jvalue" where
  "json_loads s = parse_tokens EValue [] (lex s)"


lemmas json_defs = json_loads_def lex_number_def lex_exponent_def is_ascii_digit_def
  int_max_str_digits_def escape_char_def hex_digit_def low_surrogate_escape_def
  nesting_limit_def float_of_decimal_def

section \<open>JSON recovery\<close>

text \<open>
  The four patterns of \<open>_extract_json_from_text\<close>:
  \<^verbatim>\<open>^```(?:json)?\s*|\s*```$\<close>, \<^verbatim>\<open>```json\s*(\{.*?\})\s*```\<close>,
  \<^verbatim>\<open>```[\s\n]*(\{.*?\})[\s\n]*```\<close> and \<^verbatim>\<open>(\{.*\})\<close>.
  The class \<open>[\s\n]\<close> is \<open>\s\<close>, which has the line feed in it.
\<close>

definition fence_pattern :: pattern where
  "fence_pattern =
     [[Bos, Lit (U ''```''), Opt (U ''json''), Star Whitespace],
      [Star Whitespace, Lit (U ''```''), Eos]]"

definition json_fence_pattern :: pattern where
  "json_fence_pattern =
     [[Lit (U ''```json''), Star Whitespace, GroupOpen, Lit (U ''{''), StarLazy AnyChar,
       Lit (U ''}''), GroupClose, Star Whitespace, Lit (U ''```'')]]"

definition any_fence_pattern :: pattern where
  "any_fence_pattern =
     [[Lit (U ''```''), Star Whitespace, GroupOpen, Lit (U ''{''), StarLazy AnyChar,
       Lit (U ''}''), GroupClose, Star Whitespace, Lit (U ''```'')]]"

definition brace_span_pattern :: pattern where
  "brace_span_pattern = [[GroupOpen, Lit (U ''{''), Star AnyChar, Lit (U ''}''), GroupClose]]"

text \<open>\<open>s.find(c)\<close> for a one-character string \<open>c\<close>: the first index, or \<open>-1\<close>.\<close>

definition py_find :: "nat \<Rightarrow> pystr \<Rightarrow> int" where
  "py_find c s = (if c \<in> set s then int (length (takeWhile (\<lambda>x. x \<noteq> c) s)) else - 1)"

text \<open>Lines 128 to 131: strip, and remove the code fences of a text that starts with one.\<close>

definition strip_fences :: "pystr \<Rightarrow> pystr" where
  "strip_fences full_text =
     (let txt = py_strip full_text
      in if prefix (U ''```'') txt then py_strip (re_sub fence_pattern txt) else txt)"

text \<open>
  \<open>m.group(1)\<close> is \<open>None\<close> when the group took no part in the match, and \<open>None\<close> has
  no \<open>strip\<close>.
\<close>

definition group_1 :: "mstate \<Rightarrow> py_exn + pystr" where
  "group_1 m = (case group1 m of None \<Rightarrow> Inl AttributeError | Some g \<Rightarrow> Inr g)"

text \<open>Lines 134 to 141: the three searches in order, and the stripped span.\<close>

definition select_span :: "pystr \<Rightarrow> py_exn + pystr" where
  "select_span txt =
     (case (case re_search json_fence_pattern txt of
              Some m \<Rightarrow> group_1 m
            | None \<Rightarrow>
                (case re_search any_fence_pattern txt of
                   Some m \<Rightarrow> group_1 m
                 | None \<Rightarrow>
                     (case re_search brace_span_pattern txt of
                        Some m \<Rightarrow> group_1 m
                      | None \<Rightarrow> Inr txt))) of
        Inl e \<Rightarrow> Inl e
      | Inr span \<Rightarrow> Inr (py_strip span))"

text \<open>Lines 142 to 144.\<close>

definition trim_to_brace :: "pystr \<Rightarrow> pystr" where
  "trim_to_brace clean =
     (let first = py_find 123 clean in if first > 0 then drop (nat first) clean else clean)"

text \<open>The string that is handed to \<open>json.loads\<close>.\<close>

definition candidate :: "pystr \<Rightarrow> py_exn + pystr" where
  "candidate full_text =
     (case select_span (strip_fences full_text) of
        Inl e \<Rightarrow> Inl e
      | Inr clean \<Rightarrow> Inr (trim_to_brace clean))"

definition error_object :: "pystr \<Rightarrow> jvalue" where
  "error_object raw =
     JObj [(U ''error'', JStr (U ''Invalid JSON output from model'')), (U ''raw'', JStr raw)]"

text \<open>Lines 146 to 149: only \<open>json.JSONDecodeError\<close> is caught.\<close>

definition extract_json_from_text :: "pystr \<Rightarrow> py_exn + jvalue" where
  "extract_json_from_text full_text =
     (case candidate full_text of
        Inl e \<Rightarrow> Inl e
      | Inr clean \<Rightarrow>
          (case json_loads clean of
             Inr v \<Rightarrow> Inr v
           | Inl e \<Rightarrow> if e = JSONDecodeError then Inr (error_object clean) else Inl e))"

lemmas recovery_defs = extract_json_from_text_def candidate_def trim_to_brace_def
  select_span_def group_1_def strip_fences_def py_find_def fence_pattern_def
  json_fence_pattern_def any_fence_pattern_def brace_span_pattern_def error_object_def


section \<open>Model invoker\<close>

text \<open>
  The inference service and the file system are outside the program; they are taken
  as a parameter that tells what each call gives back. \<open>read_text\<close> is
  \<open>read_text_file\<close> on a path. \<open>client\<close> is \<open>boto3.client("bedrock-runtime", ...)\<close> for
  a region. \<open>response_stream\<close> is \<open>invoke_model_with_response_stream\<close> for a model and
  a request body: the exception it raises, or the events that iterating the response
  body delivers, with the exception that ends the iteration if one does.
  \<open>response_body\<close> is \<open>invoke_model\<close> followed by reading the body: the exception
  raised, or the body as the text that \<open>json.loads\<close> parses.
\<close>

datatype event = Chunk bytes | OtherEvent

record service =
  read_text :: "pystr \<Rightarrow> py_exn + pystr"
  client :: "pystr \<Rightarrow> py_exn + unit"
  response_stream :: "pystr \<Rightarrow> jvalue \<Rightarrow> py_exn + (event list \<times> py_exn option)"
  response_body :: "pystr \<Rightarrow> jvalue \<Rightarrow> py_exn + pystr"

text \<open>What a function does to the outside, in order.\<close>

datatype effect =
    ReadText pystr
  | CreateClient pystr
  | InvokeStream pystr jvalue
  | InvokeModel pystr jvalue

text \<open>\<open>bytes.decode("utf-8")\<close>: \<open>None\<close> stands for \<open>UnicodeDecodeError\<close>.\<close>

definition is_cont :: "char \<Rightarrow> bool" where
  "is_cont b \<longleftrightarrow> 0x80 \<le> (of_char b :: nat) \<and> (of_char b :: nat) \<le> 0xBF"

definition cont_bits :: "char \<Rightarrow> nat" where
  "cont_bits b = of_char b - 0x80"

fun utf8_decode :: "bytes \<Rightarrow> pystr option" where
  "utf8_decode [] = Some []"
| "utf8_decode (b # bs) =
     (let n = (of_char b :: nat) in
      if n < 0x80 then map_option ((#) n) (utf8_decode bs)
      else if 0xC2 \<le> n \<and> n \<le> 0xDF then
        (case bs of
           b1 # r \<Rightarrow>
             if is_cont b1
             then map_option ((#) ((n - 0xC0) * 64 + cont_bits b1)) (utf8_decode r)
             else None
         | _ \<Rightarrow> None)
      else if 0xE0 \<le> n \<and> n \<le> 0xEF then
        (case bs of
           b1 # b2 # r \<Rightarrow>
             (let cp = (n - 0xE0) * 4096 + cont_bits b1 * 64 + cont_bits b2 in
              if is_cont b1 \<and> is_cont b2 \<and> 0x800 \<le> cp \<and> \<not> (0xD800 \<le> cp \<and> cp \<le> 0xDFFF)
              then map_option ((#) cp) (utf8_decode r)
              else None)
         | _ \<Rightarrow> None)
      else if 0xF0 \<le> n \<and> n \<le> 0xF4 then
        (case bs of
           b1 # b2 # b3 # r \<Rightarrow>
             (let cp = (n - 0xF0) * 262144 + cont_bits b1 * 4096 + cont_bits b2 * 64
                         + cont_bits b3 in
              if is_cont b1 \<and> is_cont b2 \<and> is_cont b3 \<and> 0x10000 \<le> cp \<and> cp \<le> 0x10FFFF
              then map_option ((#) cp) (utf8_decode r)
              else None)
         | _ \<Rightarrow> None)
      else None)"

text \<open>
  \<open>x.get(key, default)\<close>: only a \<open>dict\<close> has \<open>get\<close>. The truth value of a decoded
  value: a float is false when it is zero, and the double nearest to \<open>m * 10^e\<close> is
  zero exactly when \<open>m * 10^e\<close> is at most \<open>2^-1075\<close>.
\<close>

definition dict_get :: "jvalue \<Rightarrow> pystr \<Rightarrow> jvalue \<Rightarrow> py_exn + jvalue" where
  "dict_get x key dflt =
     (case x of
        JObj kvs \<Rightarrow> Inr (case map_of kvs key of None \<Rightarrow> dflt | Some v \<Rightarrow> v)
      | _ \<Rightarrow> Inl AttributeError)"

fun truthy :: "jvalue \<Rightarrow> bool" where
  "truthy JNull = False"
| "truthy (JBool b) = b"
| "truthy (JInt i) = (i \<noteq> 0)"
| "truthy (JFloat neg m e) = (\<not> (m = 0 \<or> (e < 0 \<and> int m * 2 ^ 1075 \<le> 10 ^ nat (- e))))"
| "truthy JNaN = True"
| "truthy (JInf neg) = True"
| "truthy (JStr s) = (s \<noteq> [])"
| "truthy (JArr vs) = (vs \<noteq> [])"
| "truthy (JObj kvs) = (kvs \<noteq> [])"

text \<open>
  The \<open>try\<close> block of the loop (lines 112 to 119) on the decoded text of a chunk:
  what it appends to \<open>out\<close>. Whatever is raised inside is dropped.
\<close>

definition chunk_delta :: "pystr \<Rightarrow> jvalue list" where
  "chunk_delta raw =
     (case (case json_loads raw of
              Inl e \<Rightarrow> Inl e
            | Inr piece \<Rightarrow>
                (case dict_get piece (U ''delta'') (JObj []) of
                   Inl e \<Rightarrow> Inl e
                 | Inr delta \<Rightarrow>
                     (case dict_get delta (U ''text'') JNull of
                        Inl e \<Rightarrow> Inl e
                      | Inr txt \<Rightarrow> Inr (if truthy txt then [txt] else [])))) of
        Inl e \<Rightarrow> []
      | Inr appended \<Rightarrow> appended)"

text \<open>The loop of lines 109 to 119; the decoding of a chunk is not inside the \<open>try\<close>.\<close>

fun stream_loop :: "jvalue list \<Rightarrow> event list \<Rightarrow> py_exn + jvalue list" where
  "stream_loop out [] = Inr out"
| "stream_loop out (OtherEvent # evs) = stream_loop out evs"
| "stream_loop out (Chunk bs # evs) =
     (case utf8_decode bs of
        None \<Rightarrow> Inl UnicodeDecodeError
      | Some raw \<Rightarrow> stream_loop (out @ chunk_delta raw) evs)"

text \<open>\<open>"".join(out)\<close>: every item must be a \<open>str\<close>.\<close>

fun join_texts :: "jvalue list \<Rightarrow> py_exn + pystr" where
  "join_texts [] = Inr []"
| "join_texts (JStr s # vs) =
     (case join_texts vs of Inl e \<Rightarrow> Inl e | Inr r \<Rightarrow> Inr (s @ r))"
| "join_texts (v # vs) = Inl TypeError"

text \<open>Lines 108 to 120, for the events that the iteration delivers.\<close>

definition collect_stream_text :: "event list \<times> py_exn option \<Rightarrow> py_exn + pystr" where
  "collect_stream_text stream =
     (case stream_loop [] (fst stream) of
        Inl e \<Rightarrow> Inl e
      | Inr out \<Rightarrow> (case snd stream of Some e \<Rightarrow> Inl e | None \<Rightarrow> join_texts out))"

text \<open>
  \<open>_invoke_streaming\<close>, called with \<open>messages\<close>, a model, a region and a temperature;
  \<open>max_tokens\<close> and \<open>stop_sequences\<close> keep their defaults.
\<close>

definition stream_request_body :: "jvalue \<Rightarrow> jvalue \<Rightarrow> jvalue" where
  "stream_request_body messages temperature =
     JObj [(U ''messages'', messages), (U ''max_tokens'', JInt 50000),
           (U ''temperature'', temperature), (U ''stop_sequences'', JArr []),
           (U ''anthropic_version'', JStr (U ''bedrock-2023-05-31''))]"

definition invoke_streaming ::
  "service \<Rightarrow> jvalue \<Rightarrow> pystr \<Rightarrow> pystr \<Rightarrow> jvalue \<Rightarrow> (py_exn + pystr) \<times> effect list" where
  "invoke_streaming w messages model_id region temperature =
     (let body = stream_request_body messages temperature in
      case client w region of
        Inl e \<Rightarrow> (Inl e, [CreateClient region])
      | Inr brt \<Rightarrow>
          (case response_stream w model_id body of
             Inl e \<Rightarrow> (Inl e, [CreateClient region, InvokeStream model_id body])
           | Inr stream \<Rightarrow>
               (collect_stream_text stream, [CreateClient region, InvokeStream model_id body])))"

section \<open>Extraction of decisions\<close>

text \<open>The three fixed parts of the prompt of \<open>extract_attributes_streaming_kararat\<close>.\<close>

definition karar_prompt_head :: pystr where
  "karar_prompt_head =
     U ''You are a legal document parser. You will receive the OCR text of a Lebanese ''
     @ kw_qarar
     @ U '' (karar / administrative decision). Extract the following fields:'' @ [10, 10]"

definition karar_prompt_middle :: pystr where
  "karar_prompt_middle =
     [10, 10] @ U ''Do not hallucinate content. If a feature is missing from the article, ''
     @ U ''return `null` for that feature (or an empty object/list if applicable).''
     @ [10, 10] @ U ''### Example Input:'' @ [10]"

definition karar_prompt_tail :: pystr where
  "karar_prompt_tail = [10, 10] @ U ''### Output Format (in JSON):''"

definition user_message :: "pystr \<Rightarrow> jvalue" where
  "user_message content =
     JObj [(U ''role'', JStr (U ''user'')), (U ''content'', JStr content)]"

definition unsupported_subtype :: "pystr \<Rightarrow> jvalue" where
  "unsupported_subtype subtype =
     JObj [(U ''error'', JStr (U ''Unsupported subtype'')), (U ''subtype'', JStr subtype)]"

text \<open>
  \<open>extract_attributes_streaming_kararat\<close>. The subtype may be \<open>None\<close>:
  \<open>(subtype or "").strip()\<close>.
\<close>

definition extract_attributes_streaming_kararat ::
  "service \<Rightarrow> pystr option \<Rightarrow> pystr \<Rightarrow> pystr \<Rightarrow> pystr \<Rightarrow> (py_exn + jvalue) \<times> effect list" where
  "extract_attributes_streaming_kararat w subtype ocr_text model_id region =
     (let subtype' = py_strip (case subtype of None \<Rightarrow> [] | Some s \<Rightarrow> s) in
      if subtype' \<noteq> kw_qarar then (Inr (unsupported_subtype subtype'), [])
      else
        (case read_text w (U ''karar_schema.txt'') of
           Inl e \<Rightarrow> (Inl e, [ReadText (U ''karar_schema.txt'')])
         | Inr schema_description \<Rightarrow>
             (let prompt = py_strip ([10] @ karar_prompt_head @ schema_description
                             @ karar_prompt_middle @ ocr_text @ karar_prompt_tail @ [10]);
                  call = invoke_streaming w (JArr [user_message prompt]) model_id region
                           (JFloat False 3 (- 1))
              in (case fst call of
                    Inl e \<Rightarrow> (Inl e, ReadText (U ''karar_schema.txt'') # snd call)
                  | Inr full \<Rightarrow>
                      (extract_json_from_text full,
                       ReadText (U ''karar_schema.txt'') # snd call)))))"

section \<open>Subtype classifier\<close>

definition classify_system_prompt :: pystr where
  "classify_system_prompt =
     U ''You are a legal document analyzer. Given the full OCR text of a Lebanese decision article (''
     @ [1602, 1585, 1575, 1585, 1575, 1578, 32, 1578, 1593, 1575, 1605, 1610, 1605, 32,
        1593, 1604, 1605, 32, 1608, 1582, 1576, 1585]
     @ U ''), classify it into one of:'' @ [10]
     @ U ''- '' @ [1602, 1585, 1575, 1585] @ [10]
     @ U ''- '' @ [1576, 1610, 1575, 1606] @ [10]
     @ U ''- '' @ [1573, 1593, 1604, 1575, 1605] @ [10]
     @ U ''- '' @ [1593, 1604, 1605, 32, 1608, 1582, 1576, 1585] @ [10]
     @ U ''- '' @ [1576, 1604, 1575, 1594] @ [10]
     @ U ''- '' @ [1602, 1585, 1575, 1585, 32, 1608, 1587, 1610, 1591] @ [10]
     @ U ''- '' @ [1602, 1585, 1575, 1585, 32, 1576, 1604, 1583, 1610] @ [10, 10]
     @ U ''Respond with only the subtype (one word) or '' @ [34] @ U ''unknown'' @ [34]
     @ U ''.''"

definition classify_payload :: "pystr \<Rightarrow> jvalue" where
  "classify_payload text =
     JObj [(U ''system'', JStr (py_strip ([10] @ classify_system_prompt @ [10]))),
           (U ''messages'', JArr [user_message (py_strip text)]),
           (U ''max_tokens'', JInt 50),
           (U ''anthropic_version'', JStr (U ''bedrock-2023-05-31''))]"

text \<open>\<open>x[0]\<close> and \<open>x.strip()\<close> on a decoded value.\<close>

fun first_item :: "jvalue \<Rightarrow> py_exn + jvalue" where
  "first_item (JArr []) = Inl IndexError"
| "first_item (JArr (v # vs)) = Inr v"
| "first_item (JStr []) = Inl IndexError"
| "first_item (JStr (c # cs)) = Inr (JStr [c])"
| "first_item (JObj kvs) = Inl KeyError"
| "first_item v = Inl TypeError"

fun str_strip :: "jvalue \<Rightarrow> py_exn + pystr" where
  "str_strip (JStr s) = Inr (py_strip s)"
| "str_strip v = Inl AttributeError"

text \<open>
  Lines 308 and 309 on the text of the response body:
  \<open>body.get("content", [{}])[0].get("text", "").strip() or "unknown"\<close>.
\<close>

definition classify_reply :: "pystr \<Rightarrow> py_exn + pystr" where
  "classify_reply body_text =
     (case json_loads body_text of
        Inl e \<Rightarrow> Inl e
      | Inr body \<Rightarrow>
          (case dict_get body (U ''content'') (JArr [JObj []]) of
             Inl e \<Rightarrow> Inl e
           | Inr content \<Rightarrow>
               (case first_item content of
                  Inl e \<Rightarrow> Inl e
                | Inr item \<Rightarrow>
                    (case dict_get item (U ''text'') (JStr []) of
                       Inl e \<Rightarrow> Inl e
                     | Inr txt \<Rightarrow>
                         (case str_strip txt of
                            Inl e \<Rightarrow> Inl e
                          | Inr label \<Rightarrow>
                              Inr (if label \<noteq> [] then label else U ''unknown''))))))"

text \<open>
  \<open>detect_subtype_with_claude\<close>: the client is made before the \<open>try\<close>; whatever the
  call and the reading of the reply raise is answered with \<open>"unknown"\<close>.
\<close>

definition detect_subtype_with_claude ::
  "service \<Rightarrow> pystr \<Rightarrow> pystr \<Rightarrow> pystr \<Rightarrow> (py_exn + pystr) \<times> effect list" where
  "detect_subtype_with_claude w text region model_id =
     (case client w region of
        Inl e \<Rightarrow> (Inl e, [CreateClient region])
      | Inr c \<Rightarrow>
          (let payload = classify_payload text;
               trace = [CreateClient region, InvokeModel model_id payload]
           in case response_body w model_id payload of
                Inl e \<Rightarrow> (Inr (U ''unknown''), trace)
              | Inr body_text \<Rightarrow>
                  (case classify_reply body_text of
                     Inl e \<Rightarrow> (Inr (U ''unknown''), trace)
                   | Inr label \<Rightarrow> (Inr label, trace))))"


section \<open>What the recovery returns\<close>

text \<open>
  Claim C3 says that the recovery returns a mapping for every input. A text without
  a brace is handed to the decoder as it is, and what the decoder makes of it is
  returned: for \<open>[1, 2]\<close> a list.
\<close>

theorem extract_json_returns_list:
  "extract_json_from_text (U ''[1, 2]'') = Inr (JArr [JInt 1, JInt 2])"
  by (simp add: recovery_defs rx_defs json_defs str_defs)

section \<open>The unsupported subtype\<close>

text \<open>A service on which every call fails, and one that answers the classifier.\<close>

definition failing_service :: service where
  "failing_service = \<lparr>read_text = (\<lambda>p. Inl OSError), client = (\<lambda>r. Inl BotoError),
      response_stream = (\<lambda>m b. Inl BotoError), response_body = (\<lambda>m b. Inl BotoError)\<rparr>"

definition answering_service :: "pystr \<Rightarrow> service" where
  "answering_service reply = \<lparr>read_text = (\<lambda>p. Inl OSError), client = (\<lambda>r. Inr ()),
      response_stream = (\<lambda>m b. Inl BotoError), response_body = (\<lambda>m b. Inr reply)\<rparr>"

text \<open>
  Claim C7, as the code has it: when the stripped subtype (\<open>None\<close> counting as the
  empty string) is not the supported one, the result is the error mapping with the
  stripped subtype in it, and nothing has been done to the outside: no file read, no
  client, no call.
\<close>

theorem unsupported_subtype_immediate:
  assumes "py_strip (case subtype of None \<Rightarrow> [] | Some s \<Rightarrow> s) \<noteq> kw_qarar"
  shows "extract_attributes_streaming_kararat w subtype ocr_text model_id region =
           (Inr (unsupported_subtype (py_strip (case subtype of None \<Rightarrow> [] | Some s \<Rightarrow> s))), [])"
  using assms by (simp add: extract_attributes_streaming_kararat_def Let_def)

theorem unsupported_subtype_immediate_witness:
  "extract_attributes_streaming_kararat failing_service None (U ''text'') (U ''m'') (U ''r'') =
     (Inr (unsupported_subtype []), [])"
proof -
  have "py_strip (case None of None \<Rightarrow> [] | Some s \<Rightarrow> s) \<noteq> kw_qarar"
    by (simp add: str_defs kw_qarar_def)
  from unsupported_subtype_immediate [OF this, of failing_service "U ''text''" "U ''m''" "U ''r''"]
  show ?thesis by (simp add: str_defs)
qed

text \<open>
  Claim C7 as stated gives the input back in the \<open>subtype\<close> field. For the input
  \<open>" x"\<close> the field is \<open>"x"\<close>.
\<close>

theorem unsupported_subtype_stripped_counterexample:
  "extract_attributes_streaming_kararat failing_service (Some (U '' x'')) (U ''text'') (U ''m'') (U ''r'')
     = (Inr (unsupported_subtype (U ''x'')), []) \<and> U ''x'' \<noteq> U '' x''"
  by (simp add: extract_attributes_streaming_kararat_def str_defs kw_qarar_def)

section \<open>The classifier never fails once it has a client\<close>

text \<open>
  The text of the model in a reply, as line 309 looks it up: the \<open>text\<close> of the first
  item of \<open>content\<close>, where a reply without \<open>content\<close> has the content \<open>[{}]\<close> and an
  item without \<open>text\<close> the text \<open>""\<close>. There is none when the reply is not the JSON
  text of an object, when \<open>content\<close> is not a list with an object first, and when
  \<open>text\<close> is not a string.
\<close>

definition reply_text :: "pystr \<Rightarrow> pystr option" where
  "reply_text b =
     (case json_loads b of
        Inr (JObj kvs) \<Rightarrow>
          (case (case map_of kvs (U ''content'') of None \<Rightarrow> JArr [JObj []] | Some c \<Rightarrow> c) of
             JArr (JObj ikvs # items) \<Rightarrow>
               (case map_of ikvs (U ''text'') of
                  None \<Rightarrow> Some []
                | Some (JStr t) \<Rightarrow> Some t
                | Some v \<Rightarrow> None)
           | c \<Rightarrow> None)
      | r \<Rightarrow> None)"

lemma classify_reply_text:
  "reply_text b = Some t \<Longrightarrow>
     classify_reply b = Inr (if py_strip t = [] then U ''unknown'' else py_strip t)"
  by (auto simp: reply_text_def classify_reply_def dict_get_def
      split: sum.splits jvalue.splits option.splits list.splits)

lemma classify_reply_raises:
  "reply_text b = None \<longleftrightarrow> (\<exists>e. classify_reply b = Inl e)"
proof (cases "reply_text b")
  case None
  then have "\<exists>e. classify_reply b = Inl e"
    by (auto simp: reply_text_def classify_reply_def dict_get_def
        split: sum.splits jvalue.splits option.splits list.splits
        elim!: first_item.elims str_strip.elims)
  with None show ?thesis by simp
next
  case (Some t)
  with classify_reply_text [OF Some] show ?thesis by simp
qed

text \<open>
  Claim C8, as the code has it. What the construction of the client raises reaches
  the caller. Once the client has been made, the classifier returns a string
  whatever the service does: \<open>"unknown"\<close> when the call raises, \<open>"unknown"\<close> when
  reading the reply raises, which is when the reply has no text of the model in it,
  and otherwise that text stripped, or \<open>"unknown"\<close> when nothing is left of it.
\<close>

theorem detect_subtype_after_client:
  "fst (detect_subtype_with_claude w text region model_id) =
     (case client w region of
        Inl e \<Rightarrow> Inl e
      | Inr c \<Rightarrow>
          Inr (case response_body w model_id (classify_payload text) of
                 Inl e \<Rightarrow> U ''unknown''
               | Inr b \<Rightarrow>
                   (case reply_text b of
                      None \<Rightarrow> U ''unknown''
                    | Some t \<Rightarrow> if py_strip t = [] then U ''unknown'' else py_strip t)))
   \<and> (\<forall>b. reply_text b = None \<longleftrightarrow> (\<exists>e. classify_reply b = Inl e))"
proof -
  have "fst (detect_subtype_with_claude w text region model_id) =
     (case client w region of
        Inl e \<Rightarrow> Inl e
      | Inr c \<Rightarrow>
          Inr (case response_body w model_id (classify_payload text) of
                 Inl e \<Rightarrow> U ''unknown''
               | Inr b \<Rightarrow>
                   (case reply_text b of
                      None \<Rightarrow> U ''unknown''
                    | Some t \<Rightarrow> if py_strip t = [] then U ''unknown'' else py_strip t)))"
  proof (cases "client w region")
    case (Inl e)
    then show ?thesis by (simp add: detect_subtype_with_claude_def)
  next
    case c: (Inr c)
    show ?thesis
    proof (cases "response_body w model_id (classify_payload text)")
      case (Inl e)
      with c show ?thesis by (simp add: detect_subtype_with_claude_def Let_def)
    next
      case b: (Inr b)
      show ?thesis
      proof (cases "reply_text b")
        case None
        with classify_reply_raises [of b] obtain e where "classify_reply b = Inl e" by blast
        with c b None show ?thesis by (simp add: detect_subtype_with_claude_def Let_def)
      next
        case (Some t)
        with c b classify_reply_text [OF Some] show ?thesis
          by (simp add: detect_subtype_with_claude_def Let_def)
      qed
    qed
  qed
  with classify_reply_raises show ?thesis by blast
qed

text \<open>
  Three replies: one with a text, one whose first content item has no text, and one
  without content.
\<close>

theorem detect_subtype_after_client_witness:
  "fst (detect_subtype_with_claude
          (answering_service (U ''{\"content\": [{\"type\": \"text\", \"text\": \" ok\"}]}''))
          (U ''text'') (U ''us-east-1'') (U ''m'')) = Inr (U ''ok'') \<and>
   fst (detect_subtype_with_claude (answering_service (U ''{\"content\": [{}]}''))
          (U ''text'') (U ''us-east-1'') (U ''m'')) = Inr (U ''unknown'') \<and>
   fst (detect_subtype_with_claude (answering_service (U ''{}''))
          (U ''text'') (U ''us-east-1'') (U ''m'')) = Inr (U ''unknown'')"
  using detect_subtype_after_client
          [of "answering_service (U ''{\"content\": [{\"type\": \"text\", \"text\": \" ok\"}]}'')"
              "U ''text''" "U ''us-east-1''" "U ''m''"]
        detect_subtype_after_client
          [of "answering_service (U ''{\"content\": [{}]}'')"
              "U ''text''" "U ''us-east-1''" "U ''m''"]
        detect_subtype_after_client
          [of "answering_service (U ''{}'')" "U ''text''" "U ''us-east-1''" "U ''m''"]
  by (simp add: answering_service_def reply_text_def json_defs str_defs)

text \<open>
  Claim C8 says that the classifier never raises. The client is made before the
  \<open>try\<close> (line 280), so what \<open>boto3.client\<close> raises, for a region name it refuses,
  reaches the caller.
\<close>

theorem detect_subtype_client_counterexample:
  "fst (detect_subtype_with_claude failing_service (U ''text'') (U ''not a region'') (U ''m''))
     = Inl BotoError"
  by (simp add: detect_subtype_with_claude_def failing_service_def)


section \<open>The text collected from a stream\<close>

text \<open>
  A chunk that is not UTF-8; the \<open>delta.text\<close> field of the decoded text of a chunk
  that parses as an object whose \<open>delta\<close> is an object; and the text the
  specification describes: the string fields among those, in order.
\<close>

definition undecodable :: "event \<Rightarrow> bool" where
  "undecodable ev = (case ev of Chunk bs \<Rightarrow> utf8_decode bs = None | OtherEvent \<Rightarrow> False)"

definition parsed_delta_text :: "pystr \<Rightarrow> jvalue option" where
  "parsed_delta_text raw =
     (case json_loads raw of
        Inr (JObj kvs) \<Rightarrow>
          (case map_of kvs (U ''delta'') of
             Some (JObj dkvs) \<Rightarrow> map_of dkvs (U ''text'')
           | _ \<Rightarrow> None)
      | _ \<Rightarrow> None)"

definition delta_field :: "event \<Rightarrow> jvalue option" where
  "delta_field ev =
     (case ev of
        Chunk bs \<Rightarrow> (case utf8_decode bs of Some raw \<Rightarrow> parsed_delta_text raw | None \<Rightarrow> None)
      | OtherEvent \<Rightarrow> None)"

definition claimed_stream_text :: "event list \<Rightarrow> pystr" where
  "claimed_stream_text evs =
     concat (map (\<lambda>ev. case delta_field ev of Some (JStr t) \<Rightarrow> t | _ \<Rightarrow> []) evs)"

lemma chunk_delta_eq:
  "chunk_delta raw =
     (case parsed_delta_text raw of Some v \<Rightarrow> if truthy v then [v] else [] | None \<Rightarrow> [])"
  by (auto simp: chunk_delta_def parsed_delta_text_def dict_get_def
      split: sum.splits jvalue.splits option.splits)

definition appended :: "event \<Rightarrow> jvalue list" where
  "appended ev = (case delta_field ev of Some v \<Rightarrow> if truthy v then [v] else [] | None \<Rightarrow> [])"

lemma undecodable_simps [simp]:
  "undecodable OtherEvent = False" "undecodable (Chunk bs) = (utf8_decode bs = None)"
  by (simp_all add: undecodable_def)

lemma appended_simps:
  "appended OtherEvent = []"
  "appended (Chunk bs) = (case utf8_decode bs of None \<Rightarrow> [] | Some raw \<Rightarrow> chunk_delta raw)"
  by (simp_all add: appended_def delta_field_def chunk_delta_eq split: option.splits)

lemma stream_loop_eq:
  "stream_loop out evs =
     (if \<exists>ev\<in>set evs. undecodable ev then Inl UnicodeDecodeError
      else Inr (out @ concat (map appended evs)))"
proof (induction evs arbitrary: out)
  case Nil
  then show ?case by simp
next
  case (Cons ev evs)
  show ?case
  proof (cases ev)
    case OtherEvent
    with Cons show ?thesis by (simp add: appended_simps)
  next
    case (Chunk bs)
    show ?thesis
    proof (cases "utf8_decode bs")
      case None
      with Chunk show ?thesis by simp
    next
      case (Some raw)
      with Chunk Cons [of "out @ chunk_delta raw"] show ?thesis
        by (simp add: appended_simps)
    qed
  qed
qed

lemma set_appended: "set (appended ev) = {v. delta_field ev = Some v \<and> truthy v}"
  by (auto simp: appended_def split: option.splits)

lemma join_texts_eq:
  "join_texts vs =
     (if \<exists>v\<in>set vs. \<forall>t. v \<noteq> JStr t then Inl TypeError
      else Inr (concat (map (\<lambda>v. case v of JStr t \<Rightarrow> t | _ \<Rightarrow> []) vs)))"
  by (induction vs rule: join_texts.induct) auto

lemma appended_bad:
  "(\<exists>v\<in>set (concat (map appended evs)). \<forall>t. v \<noteq> JStr t) \<longleftrightarrow>
   (\<exists>ev\<in>set evs. \<exists>v. delta_field ev = Some v \<and> truthy v \<and> (\<forall>t. v \<noteq> JStr t))"
  by (auto simp: set_appended)

lemma appended_texts:
  assumes "\<not> (\<exists>ev\<in>set evs. \<exists>v. delta_field ev = Some v \<and> truthy v \<and> (\<forall>t. v \<noteq> JStr t))"
  shows "concat (map (\<lambda>v. case v of JStr t \<Rightarrow> t | _ \<Rightarrow> []) (concat (map appended evs)))
           = claimed_stream_text evs"
  using assms
proof (induction evs)
  case Nil
  then show ?case by (simp add: claimed_stream_text_def)
next
  case (Cons ev evs)
  then have "concat (map (\<lambda>v. case v of JStr t \<Rightarrow> t | _ \<Rightarrow> []) (concat (map appended evs)))
           = claimed_stream_text evs" by simp
  moreover have "concat (map (\<lambda>v. case v of JStr t \<Rightarrow> t | _ \<Rightarrow> []) (appended ev))
      = (case delta_field ev of Some (JStr t) \<Rightarrow> t | _ \<Rightarrow> [])"
    using Cons.prems by (auto simp: appended_def split: option.splits jvalue.splits)
  ultimately show ?case by (simp add: claimed_stream_text_def)
qed

text \<open>
  What the collected text is, for a stream that ends without an error. A chunk that
  is not UTF-8 raises \<open>UnicodeDecodeError\<close>, since it is decoded outside the \<open>try\<close>.
  Otherwise every chunk that does not parse, or has no \<open>delta.text\<close>, or a false one,
  adds nothing; a \<open>delta.text\<close> that is true and not a string is appended and makes
  the final join raise \<open>TypeError\<close>; and without such a field the result is the
  concatenation, in order, of the non-empty \<open>delta.text\<close> strings.
\<close>

lemma collect_stream_text_outcomes:
  "collect_stream_text (evs, None) =
     (if \<exists>ev\<in>set evs. undecodable ev then Inl UnicodeDecodeError
      else if \<exists>ev\<in>set evs. \<exists>v. delta_field ev = Some v \<and> truthy v \<and> (\<forall>t. v \<noteq> JStr t)
           then Inl TypeError
      else Inr (claimed_stream_text evs))"
proof (cases "\<exists>ev\<in>set evs. undecodable ev")
  case True
  then show ?thesis by (simp add: collect_stream_text_def stream_loop_eq)
next
  case False
  then have j: "collect_stream_text (evs, None) = join_texts (concat (map appended evs))"
    by (simp add: collect_stream_text_def stream_loop_eq)
  show ?thesis
  proof (cases "\<exists>ev\<in>set evs. \<exists>v. delta_field ev = Some v \<and> truthy v \<and> (\<forall>t. v \<noteq> JStr t)")
    case bad: True
    then have "\<exists>v\<in>set (concat (map appended evs)). \<forall>t. v \<noteq> JStr t"
      using appended_bad [of evs] by blast
    then have "join_texts (concat (map appended evs)) = Inl TypeError"
      using join_texts_eq [of "concat (map appended evs)"] by presburger
    with j False bad show ?thesis by simp
  next
    case good: False
    then have "\<not> (\<exists>v\<in>set (concat (map appended evs)). \<forall>t. v \<noteq> JStr t)"
      using appended_bad [of evs] by blast
    then have "join_texts (concat (map appended evs)) =
        Inr (concat (map (\<lambda>v. case v of JStr t \<Rightarrow> t | _ \<Rightarrow> []) (concat (map appended evs))))"
      using join_texts_eq [of "concat (map appended evs)"] by presburger
    with j False good appended_texts [OF good] show ?thesis by simp
  qed
qed

text \<open>
  The same for \<open>_invoke_streaming\<close>, on a service that makes the client and answers
  the call with a stream that ends without an error.
\<close>

lemma invoke_streaming_outcomes:
  assumes "client w region = Inr c"
    and "response_stream w model_id (stream_request_body messages temperature) = Inr (evs, None)"
  shows "fst (invoke_streaming w messages model_id region temperature) =
     (if \<exists>ev\<in>set evs. undecodable ev then Inl UnicodeDecodeError
      else if \<exists>ev\<in>set evs. \<exists>v. delta_field ev = Some v \<and> truthy v \<and> (\<forall>t. v \<noteq> JStr t)
           then Inl TypeError
      else Inr (claimed_stream_text evs))"
  using assms collect_stream_text_outcomes [of evs]
  by (simp add: invoke_streaming_def Let_def)

text \<open>A service that answers the streaming call with the given events.\<close>

definition streaming_service :: "event list \<Rightarrow> service" where
  "streaming_service evs = \<lparr>read_text = (\<lambda>p. Inl OSError), client = (\<lambda>r. Inr ()),
      response_stream = (\<lambda>m b. Inr (evs, None)), response_body = (\<lambda>m b. Inl BotoError)\<rparr>"

definition example_stream :: "event list" where
  "example_stream =
     [Chunk ''{\"type\":\"content_block_delta\",\"delta\":{\"type\":\"text_delta\",\"text\":\"Hel\"}}'',
      OtherEvent,
      Chunk ''{\"delta\": {\"tex'',
      Chunk ''{\"type\":\"message_stop\"}'',
      Chunk ''{\"delta\":{\"text\":\"\"}}'',
      Chunk ''{\"delta\":{\"text\":\"lo\"}}'']"

lemmas stream_defs = delta_field_def parsed_delta_text_def claimed_stream_text_def
  is_cont_def cont_bits_def

text \<open>
  A stream with a partial chunk, a chunk without a delta and an empty delta between
  two text deltas.
\<close>

lemma invoke_streaming_example:
  "fst (invoke_streaming (streaming_service example_stream) messages model_id region temperature)
     = Inr (U ''Hello'')"
proof -
  have "fst (invoke_streaming (streaming_service example_stream) messages model_id region
               temperature) =
     (if \<exists>ev\<in>set example_stream. undecodable ev then Inl UnicodeDecodeError
      else if \<exists>ev\<in>set example_stream.
                \<exists>v. delta_field ev = Some v \<and> truthy v \<and> (\<forall>t. v \<noteq> JStr t)
           then Inl TypeError
      else Inr (claimed_stream_text example_stream))"
    by (rule invoke_streaming_outcomes [where c = "()"])
       (simp_all add: streaming_service_def)
  then show ?thesis
    by (simp add: example_stream_def stream_defs json_defs U_def)
qed

text \<open>
  A stream in which a text delta is cut inside a character of two bytes: the second
  chunk ends with the byte \<open>0xD9\<close>, the first of the two bytes of an Arabic letter.
\<close>

definition cut_stream :: "event list" where
  "cut_stream =
     [Chunk ''{\"delta\":{\"text\":\"Hel\"}}'',
      Chunk (''{\"delta\":{\"text\":\"'' @ [CHR 0xD9])]"

text \<open>
  Claim C6 says that a chunk that fails to parse adds nothing and raises nothing,
  and the code has a \<open>try\<close> that is to ignore the partial chunks of a stream. The
  bytes of a chunk are decoded one line above that \<open>try\<close> (line 111), so a partial
  chunk that ends inside a character is not ignored: \<open>_invoke_streaming\<close> raises
  \<open>UnicodeDecodeError\<close>, where the text of the claim is \<open>Hel\<close>.
\<close>

theorem invoke_streaming_partial_chunk_raises:
  "fst (invoke_streaming (streaming_service cut_stream) messages model_id region temperature)
     = Inl UnicodeDecodeError \<and>
   claimed_stream_text cut_stream = U ''Hel''"
  by (simp add: invoke_streaming_def streaming_service_def collect_stream_text_def
      cut_stream_def chunk_delta_def dict_get_def stream_defs json_defs U_def)

text \<open>
  A \<open>delta.text\<close> that is a number is appended to the list like a string, and the
  join of the list after the loop raises \<open>TypeError\<close>.
\<close>

lemma invoke_streaming_numeric_text_raises:
  "fst (invoke_streaming (streaming_service [Chunk ''{\"delta\":{\"text\":5}}'']) messages model_id
          region temperature) = Inl TypeError \<and>
   claimed_stream_text [Chunk ''{\"delta\":{\"text\":5}}''] = []"
  by (simp add: invoke_streaming_def streaming_service_def collect_stream_text_def
      chunk_delta_def dict_get_def stream_defs json_defs U_def)


section \<open>What the searches find\<close>

text \<open>
  A search has no match when the pattern matches at no position, and otherwise its
  match is the first result at the first position that has one.
\<close>

lemma re_search_from_None_iff:
  "re_search_from alts pre s = None \<longleftrightarrow>
     (\<forall>p t. s = p @ t \<longrightarrow> re_results alts (pre @ p = []) t = [])"
proof (induction s arbitrary: pre)
  case Nil
  then show ?case by (simp split: list.splits)
next
  case (Cons c cs)
  have "(\<forall>p t. c # cs = p @ t \<longrightarrow> re_results alts (pre @ p = []) t = []) \<longleftrightarrow>
        re_results alts (pre = []) (c # cs) = [] \<and>
        (\<forall>p t. cs = p @ t \<longrightarrow> re_results alts ((pre @ [c]) @ p = []) t = [])"
    (is "?L \<longleftrightarrow> ?A \<and> ?B")
  proof
    assume l: ?L
    from l [rule_format, of "[]" "c # cs"] have ?A by simp
    moreover have ?B
    proof (intro allI impI)
      fix p t assume "cs = p @ t"
      with l [rule_format, of "c # p" t] show "re_results alts ((pre @ [c]) @ p = []) t = []" by simp
    qed
    ultimately show "?A \<and> ?B" ..
  next
    assume ab: "?A \<and> ?B"
    show ?L
    proof (intro allI impI)
      fix p t assume pt: "c # cs = p @ t"
      show "re_results alts (pre @ p = []) t = []"
      proof (cases p)
        case Nil
        with pt ab show ?thesis by simp
      next
        case (Cons a p')
        with pt have "cs = p' @ t" "a = c" by simp_all
        with ab Cons show ?thesis by simp
      qed
    qed
  qed
  with Cons.IH [of "pre @ [c]"] show ?case by (simp split: list.splits)
qed

lemma re_search_None_iff:
  "re_search alts s = None \<longleftrightarrow> (\<forall>p t. s = p @ t \<longrightarrow> re_results alts (p = []) t = [])"
  by (simp add: re_search_def re_search_from_None_iff)

lemma re_search_from_Some:
  "re_search_from alts pre s = Some m \<Longrightarrow>
     \<exists>p t ms. s = p @ t \<and> re_results alts (pre @ p = []) t = m # ms"
proof (induction s arbitrary: pre)
  case Nil
  then show ?case by (auto split: list.splits)
next
  case (Cons c cs)
  show ?case
  proof (cases "re_results alts (pre = []) (c # cs)")
    case Nil
    with Cons.prems have "re_search_from alts (pre @ [c]) cs = Some m" by simp
    from Cons.IH [OF this] obtain p t ms where "cs = p @ t"
      "re_results alts ((pre @ [c]) @ p = []) t = m # ms" by blast
    then have "c # cs = (c # p) @ t \<and> re_results alts (pre @ (c # p) = []) t = m # ms" by simp
    then show ?thesis by blast
  next
    case (Cons st sts)
    with Cons.prems have "st = m" by simp
    with Cons have "c # cs = [] @ (c # cs) \<and> re_results alts (pre @ [] = []) (c # cs) = m # sts"
      by simp
    then show ?thesis by blast
  qed
qed

lemma re_search_Some:
  "re_search alts s = Some m \<Longrightarrow> \<exists>p t ms. s = p @ t \<and> re_results alts (p = []) t = m # ms"
  using re_search_from_Some [of alts "[]" s m] by (simp add: re_search_def)

lemma re_search_head:
  "re_results alts True s = m # ms \<Longrightarrow> re_search alts s = Some m"
  by (cases s) (simp_all add: re_search_def)

text \<open>A run of whitespace before a literal that starts with no whitespace.\<close>

lemma in_class_Whitespace: "in_class Whitespace = is_space"
  by (auto simp: fun_eq_iff)

lemma in_class_AnyChar: "takeWhile (in_class AnyChar) r = r"
  by (induction r) auto

lemma lit_after_space_fails:
  assumes "k < length (takeWhile is_space r)" and "\<not> is_space c"
  shows "\<not> prefix (c # l) (drop k r)"
proof -
  from assms have "k < length r" using length_takeWhile_le [of is_space r] by linarith
  then have d: "drop k r = r ! k # drop (Suc k) r" by (simp add: Cons_nth_drop_Suc)
  from assms have "is_space (takeWhile is_space r ! k)" using nth_mem set_takeWhileD by metis
  with assms have "is_space (r ! k)" by (simp add: takeWhile_nth)
  with d assms show ?thesis by auto
qed

lemma star_ws_exact:
  assumes "\<And>k. k < length (takeWhile is_space r) \<Longrightarrow> run is (consume k (MState b m r g grp)) = []"
  shows "run (Star Whitespace # is) (MState b m r g grp) =
           run is (MState b (m @ takeWhile is_space r) (dropWhile is_space r) g grp)"
proof -
  let ?n = "length (takeWhile is_space r)"
  have tk: "take ?n r = takeWhile is_space r" "drop ?n r = dropWhile is_space r"
    using takeWhile_eq_take [of is_space r] dropWhile_eq_drop [of is_space r] by simp_all
  have "run (Star Whitespace # is) (MState b m r g grp) =
      concat (map (\<lambda>k. run is (consume k (MState b m r g grp))) (rev [0..<Suc ?n]))"
    unfolding run_Star by (simp only: run_length_def in_class_Whitespace mstate.sel)
  also have "\<dots> = (if 0 \<le> ?n then run is (consume ?n (MState b m r g grp)) else [])"
    by (rule greedy_last_only) (rule assms)
  finally show ?thesis by (simp add: tk)
qed

lemma run_Lit_state:
  "run (Lit l # is) (MState b m r g grp) =
     (if prefix l r then run is (MState b (m @ l) (drop (length l) r) g grp) else [])"
  by (auto simp: prefix_def)

lemma star_ws_lit:
  assumes "\<not> is_space c"
  shows "run (Star Whitespace # Lit (c # l) # is) (MState b m r g grp) =
     (if prefix (c # l) (dropWhile is_space r)
      then run is (MState b (m @ takeWhile is_space r @ c # l)
                    (drop (length (c # l)) (dropWhile is_space r)) g grp)
      else [])"
proof -
  have "run (Lit (c # l) # is) (consume k (MState b m r g grp)) = []"
    if "k < length (takeWhile is_space r)" for k
    using lit_after_space_fails [OF that assms, of l] by (simp del: run.simps add: run_Lit)
  from star_ws_exact [of r "Lit (c # l) # is", OF this] show ?thesis
    by (simp del: run.simps add: run_Lit_state)
qed

lemma star_ws_open_lit:
  assumes "\<not> is_space c"
  shows "run (Star Whitespace # GroupOpen # Lit (c # l) # is) (MState b m r g grp) =
     (if prefix (c # l) (dropWhile is_space r)
      then run is (MState b (m @ takeWhile is_space r @ c # l)
                    (drop (length (c # l)) (dropWhile is_space r))
                    (length (m @ takeWhile is_space r)) grp)
      else [])"
proof -
  have "run (GroupOpen # Lit (c # l) # is) (consume k (MState b m r g grp)) = []"
    if "k < length (takeWhile is_space r)" for k
    using lit_after_space_fails [OF that assms, of l]
    by (simp del: run.simps add: run_Lit run_GroupOpen)
  from star_ws_exact [of r "GroupOpen # Lit (c # l) # is", OF this] show ?thesis
    by (simp del: run.simps add: run_Lit_state run_GroupOpen)
qed

subsection \<open>Fenced objects\<close>

text \<open>
  A fenced object of a text: a fence with the given tag, whitespace, a text from an
  opening brace to a closing brace, whitespace, and a fence. This is what the two
  fence patterns match, and the text between the braces is their group.
\<close>

definition spaces :: "pystr \<Rightarrow> bool" where
  "spaces ws \<longleftrightarrow> (\<forall>c\<in>set ws. is_space c)"

definition fenced_object :: "pystr \<Rightarrow> pystr \<Rightarrow> pystr \<Rightarrow> bool" where
  "fenced_object tag txt obj \<longleftrightarrow>
     (\<exists>pre ws1 body ws2 post.
        txt = pre @ tag @ ws1 @ obj @ ws2 @ U ''```'' @ post \<and>
        obj = [123] @ body @ [125] \<and> spaces ws1 \<and> spaces ws2)"

text \<open>The items of the two fence patterns, which differ in the tag only.\<close>

definition fence_items :: "pystr \<Rightarrow> rx_item list" where
  "fence_items tag =
     [Lit tag, Star Whitespace, GroupOpen, Lit [123], StarLazy AnyChar, Lit [125], GroupClose,
      Star Whitespace, Lit [96, 96, 96]]"

lemma fence_patterns:
  "json_fence_pattern = [fence_items (U ''```json'')]"
  "any_fence_pattern = [fence_items (U ''```'')]"
  by (simp_all add: json_fence_pattern_def any_fence_pattern_def fence_items_def U_def)

text \<open>
  Behind the opening brace, the closing brace at index \<open>k\<close> ends a match when
  whitespace and a fence follow it.
\<close>

definition closes :: "pystr \<Rightarrow> nat \<Rightarrow> bool" where
  "closes r k \<longleftrightarrow>
     prefix [125] (drop k r) \<and> prefix [96, 96, 96] (dropWhile is_space (drop (Suc k) r))"

definition closed_state :: "bool \<Rightarrow> pystr \<Rightarrow> pystr \<Rightarrow> nat \<Rightarrow> nat \<Rightarrow> mstate" where
  "closed_state b m r g k =
     MState b (m @ take k r @ [125] @ takeWhile is_space (drop (Suc k) r) @ [96, 96, 96])
       (drop 3 (dropWhile is_space (drop (Suc k) r))) g (Some (drop g (m @ take k r @ [125])))"

lemma not_space_simps [simp]: "\<not> is_space 96" "\<not> is_space 123" "\<not> is_space 125"
  by (simp_all add: is_space_def)

lemma fence_close:
  "run [Lit [125], GroupClose, Star Whitespace, Lit [96, 96, 96]] (MState b m r g grp) =
     (if prefix [125] r \<and> prefix [96, 96, 96] (dropWhile is_space (drop 1 r))
      then [MState b (m @ [125] @ takeWhile is_space (drop 1 r) @ [96, 96, 96])
              (drop 3 (dropWhile is_space (drop 1 r))) g (Some (drop g (m @ [125])))]
      else [])"
proof -
  have "run [Star Whitespace, Lit [96, 96, 96]] st =
     (case st of MState b m r g grp \<Rightarrow>
        if prefix [96, 96, 96] (dropWhile is_space r)
        then [MState b (m @ takeWhile is_space r @ [96, 96, 96])
               (drop 3 (dropWhile is_space r)) g grp]
        else [])" for st
    by (cases st) (simp del: run.simps add: star_ws_lit run.simps(1) numeral_3_eq_3)
  then show ?thesis
    by (simp del: run.simps add: run_Lit_state run_GroupClose)
qed

lemma fence_tail:
  "run [StarLazy AnyChar, Lit [125], GroupClose, Star Whitespace, Lit [96, 96, 96]]
       (MState b m r g grp) =
     concat (map (\<lambda>k. if closes r k then [closed_state b m r g k] else [])
               [0..<Suc (length r)])"
proof -
  have "run [Lit [125], GroupClose, Star Whitespace, Lit [96, 96, 96]]
          (consume k (MState b m r g grp)) =
        (if closes r k then [closed_state b m r g k] else [])" for k
    unfolding consume.simps fence_close by (simp add: closes_def closed_state_def)
  then show ?thesis
    unfolding run_StarLazy by (simp only: run_length_def in_class_AnyChar mstate.sel)
qed

lemma fence_run:
  "run (fence_items tag) (MState b [] t 0 None) =
     (if prefix tag t \<and> prefix [123] (dropWhile is_space (drop (length tag) t))
      then concat (map (\<lambda>k.
              if closes (drop 1 (dropWhile is_space (drop (length tag) t))) k
              then [closed_state b (tag @ takeWhile is_space (drop (length tag) t) @ [123])
                      (drop 1 (dropWhile is_space (drop (length tag) t)))
                      (length tag + length (takeWhile is_space (drop (length tag) t))) k]
              else [])
            [0..<Suc (length (drop 1 (dropWhile is_space (drop (length tag) t))))])
      else [])"
  unfolding fence_items_def
  apply (simp del: run.simps upt_Suc add: run_Lit_state star_ws_open_lit fence_tail)
  apply (simp only: One_nat_def simp_thms)
  done

lemma closed_state_sel:
  "group1 (closed_state b (tag @ w @ [123]) r (length tag + length w) k) = Some ([123] @ take k r @ [125])"
  "matched (closed_state b m r g k) = m @ take k r @ [125] @ takeWhile is_space (drop (Suc k) r) @ [96, 96, 96]"
  "rest (closed_state b m r g k) = drop 3 (dropWhile is_space (drop (Suc k) r))"
  by (simp_all add: closed_state_def)

lemma closes_split:
  assumes "closes r k"
  shows "r = take k r @ [125] @ takeWhile is_space (drop (Suc k) r) @ [96, 96, 96]
             @ drop 3 (dropWhile is_space (drop (Suc k) r))"
proof -
  from assms have a: "drop k r = [125] @ drop (Suc k) r"
    by (auto simp: closes_def prefix_def) (metis drop_Suc drop_drop list.sel(3) plus_1_eq_Suc tl_drop)
  from assms have b: "dropWhile is_space (drop (Suc k) r) =
       [96, 96, 96] @ drop 3 (dropWhile is_space (drop (Suc k) r))"
    by (auto simp: closes_def prefix_def)
  have "r = take k r @ drop k r" by simp
  also have "drop k r = [125] @ takeWhile is_space (drop (Suc k) r) @ dropWhile is_space (drop (Suc k) r)"
    using a by simp
  finally show ?thesis using b by simp
qed

lemma fence_sound:
  assumes "st \<in> set (run (fence_items tag) (MState b [] t 0 None))"
  shows "\<exists>ws1 body ws2 post.
           t = tag @ ws1 @ [123] @ body @ [125] @ ws2 @ [96, 96, 96] @ post \<and>
           spaces ws1 \<and> spaces ws2 \<and> group1 st = Some ([123] @ body @ [125])"
proof -
  let ?d = "drop (length tag) t"
  let ?r = "drop 1 (dropWhile is_space ?d)"
  from assms have p: "prefix tag t" "prefix [123] (dropWhile is_space ?d)"
    unfolding fence_run by (auto split: if_splits)
  with assms obtain k where k: "closes ?r k"
    and st: "st = closed_state b (tag @ takeWhile is_space ?d @ [123]) ?r
                    (length tag + length (takeWhile is_space ?d)) k"
    unfolding fence_run by (auto split: if_splits simp del: upt_Suc)
  from p have t1: "t = tag @ ?d" by (auto simp: prefix_def)
  have t2: "?d = takeWhile is_space ?d @ dropWhile is_space ?d" by simp
  from p have t3: "dropWhile is_space ?d = [123] @ ?r" by (auto simp: prefix_def)
  note t4 = closes_split [OF k]
  let ?ws1 = "takeWhile is_space ?d"
  let ?body = "take k ?r"
  let ?ws2 = "takeWhile is_space (drop (Suc k) ?r)"
  let ?post = "drop 3 (dropWhile is_space (drop (Suc k) ?r))"
  have "t = tag @ ?ws1 @ [123] @ ?body @ [125] @ ?ws2 @ [96, 96, 96] @ ?post"
    using t1 t2 t3 t4 by (metis append.assoc)
  moreover have "spaces ?ws1" "spaces ?ws2"
    by (auto simp: spaces_def dest: set_takeWhileD)
  moreover have "group1 st = Some ([123] @ ?body @ [125])"
    unfolding st by (rule closed_state_sel)
  ultimately show ?thesis by blast
qed

lemma dropWhile_spaces:
  "spaces ws \<Longrightarrow> \<not> is_space c \<Longrightarrow> dropWhile is_space (ws @ c # r) = c # r"
  "spaces ws \<Longrightarrow> \<not> is_space c \<Longrightarrow> takeWhile is_space (ws @ c # r) = ws"
  by (induction ws) (auto simp: spaces_def)

lemma concat_map_nonempty:
  "x \<in> set xs \<Longrightarrow> f x \<noteq> [] \<Longrightarrow> concat (map f xs) \<noteq> []"
  by (induction xs) auto

lemma fence_complete:
  assumes "t = tag @ ws1 @ [123] @ body @ [125] @ ws2 @ [96, 96, 96] @ post"
    and "spaces ws1" and "spaces ws2"
  shows "run (fence_items tag) (MState b [] t 0 None) \<noteq> []"
proof -
  let ?d = "drop (length tag) t"
  let ?r = "drop 1 (dropWhile is_space ?d)"
  from assms have p1: "prefix tag t" by simp
  from assms have d: "?d = ws1 @ 123 # body @ [125] @ ws2 @ [96, 96, 96] @ post" by simp
  with assms have dw: "dropWhile is_space ?d = 123 # body @ [125] @ ws2 @ [96, 96, 96] @ post"
    by (simp add: dropWhile_spaces)
  then have r: "?r = body @ [125] @ ws2 @ [96, 96, 96] @ post" by simp
  have "drop (Suc (length body)) ?r = ws2 @ 96 # [96, 96] @ post" unfolding r by simp
  with assms have "dropWhile is_space (drop (Suc (length body)) ?r) = 96 # [96, 96] @ post"
    by (simp only: dropWhile_spaces not_space_simps not_False_eq_True)
  moreover have "drop (length body) ?r = [125] @ ws2 @ [96, 96, 96] @ post" unfolding r by simp
  ultimately have c: "closes ?r (length body)" by (simp add: closes_def)
  have "length body \<in> set [0..<Suc (length ?r)]" unfolding r by simp
  from concat_map_nonempty [where f="\<lambda>k. if closes ?r k
              then [closed_state b (tag @ takeWhile is_space ?d @ [123]) ?r
                      (length tag + length (takeWhile is_space ?d)) k]
              else []", OF this] c
  show ?thesis unfolding fence_run using p1 dw by (simp del: upt_Suc)
qed

lemma re_results_single: "re_results [items] b t = run items (MState b [] t 0 None)"
  by (simp add: re_results_def)

lemma search_fence_iff:
  "re_search [fence_items tag] txt \<noteq> None \<longleftrightarrow> (\<exists>obj. fenced_object tag txt obj)"
proof
  assume "re_search [fence_items tag] txt \<noteq> None"
  then obtain m where "re_search [fence_items tag] txt = Some m" by auto
  from re_search_Some [OF this] obtain p t ms where pt: "txt = p @ t"
    and r: "re_results [fence_items tag] (p = []) t = m # ms" by blast
  then have "m \<in> set (run (fence_items tag) (MState (p = []) [] t 0 None))"
    by (simp add: re_results_single)
  from fence_sound [OF this] obtain ws1 body ws2 post where
    t: "t = tag @ ws1 @ [123] @ body @ [125] @ ws2 @ [96, 96, 96] @ post"
    and s: "spaces ws1" "spaces ws2"
    by blast
  from pt t have "txt = p @ tag @ ws1 @ ([123] @ body @ [125]) @ ws2 @ U ''```'' @ post"
    by (simp add: U_def)
  with s have "fenced_object tag txt ([123] @ body @ [125])"
    unfolding fenced_object_def by blast
  then show "\<exists>obj. fenced_object tag txt obj" ..
next
  assume "\<exists>obj. fenced_object tag txt obj"
  then obtain obj pre ws1 body ws2 post where
    t0: "txt = pre @ tag @ ws1 @ obj @ ws2 @ U ''```'' @ post" "obj = [123] @ body @ [125]"
    and s: "spaces ws1" "spaces ws2"
    unfolding fenced_object_def by blast
  then have t: "txt = pre @ (tag @ ws1 @ [123] @ body @ [125] @ ws2 @ [96, 96, 96] @ post)"
    by (simp add: U_def)
  from fence_complete [where b="pre = []", OF refl s]
  have "re_results [fence_items tag] (pre = [])
          (tag @ ws1 @ [123] @ body @ [125] @ ws2 @ [96, 96, 96] @ post) \<noteq> []"
    by (simp add: re_results_single)
  with t show "re_search [fence_items tag] txt \<noteq> None"
    using re_search_None_iff [of "[fence_items tag]" "txt"] by blast
qed

lemma first_of_upt:
  "concat (map f [0..<n]) = x # xs \<Longrightarrow> \<exists>k<n. (\<forall>j<k. f j = []) \<and> f k \<noteq> [] \<and> hd (f k) = x"
proof (induction n arbitrary: xs)
  case 0
  then show ?case by simp
next
  case (Suc n)
  show ?case
  proof (cases "concat (map f [0..<n])")
    case Nil
    then have a: "\<forall>j<n. f j = []" by auto
    have "concat (map f [0..<Suc n]) = concat (map f [0..<n]) @ f n" by simp
    with Suc.prems have "concat (map f [0..<n]) @ f n = x # xs" by (simp del: upt_Suc)
    then have "f n = x # xs" unfolding Nil by simp
    with a show ?thesis by (intro exI [of _ n]) simp
  next
    case (Cons y ys)
    with Suc.prems have "y = x" by simp
    with Cons Suc.IH [of ys] obtain k where "k < n" "\<forall>j<k. f j = []" "f k \<noteq> []" "hd (f k) = x"
      by blast
    then show ?thesis by (intro exI [of _ k]) simp
  qed
qed

text \<open>
  The lazy \<open>.*?\<close> stops at the first closing brace that whitespace and a fence
  follow: the group has no such place before its end.
\<close>

definition closes_inside :: "pystr \<Rightarrow> bool" where
  "closes_inside g \<longleftrightarrow> (\<exists>u ws v. g = u @ [125] @ ws @ U ''```'' @ v \<and> spaces ws)"

lemma fenced_closes_inside:
  assumes "fenced_object tag g obj"
  shows "closes_inside g"
proof -
  from assms obtain pre ws1 body ws2 post where
    "g = pre @ tag @ ws1 @ ([123] @ body @ [125]) @ ws2 @ U ''```'' @ post" "spaces ws2"
    unfolding fenced_object_def by blast
  then have "g = (pre @ tag @ ws1 @ [123] @ body) @ [125] @ ws2 @ U ''```'' @ post \<and> spaces ws2"
    by simp
  then show ?thesis unfolding closes_inside_def by blast
qed

lemma closes_length:
  assumes "closes r k"
  shows "k < length r"
proof (rule ccontr)
  assume "\<not> k < length r"
  then have "drop k r = []" by simp
  with assms show False by (simp add: closes_def)
qed

lemma first_close_not_inside:
  assumes k: "closes r k" and least: "\<forall>j<k. \<not> closes r j"
  shows "\<not> closes_inside ([123] @ take k r @ [125])"
proof
  assume "closes_inside ([123] @ take k r @ [125])"
  then obtain u ws v where g: "[123] @ take k r @ [125] = u @ [125] @ ws @ [96, 96, 96] @ v"
    and ws: "spaces ws"
    unfolding closes_inside_def U_def by auto
  from g obtain u' where u: "u = 123 # u'" by (cases u) auto
  with g have e: "take k r @ [125] = u' @ [125] @ ws @ [96, 96, 96] @ v" by simp
  have "v \<noteq> []"
  proof
    assume "v = []"
    with e have "last (take k r @ [125]) = last (u' @ [125] @ ws @ [96, 96, 96])" by simp
    then show False by simp
  qed
  then obtain v' where v: "v = v' @ [last v]" by (metis append_butlast_last_id)
  with e have "take k r @ [125] = (u' @ [125] @ ws @ [96, 96, 96] @ v') @ [last v]" by simp
  then have tk: "take k r = u' @ [125] @ ws @ [96, 96, 96] @ v'" by (metis append1_eq_conv)
  from closes_length [OF k] have lk: "length (take k r) = k" by simp
  have "length (take k r) = length (u' @ [125] @ ws @ [96, 96, 96] @ v')"
    by (simp only: tk)
  with lk have j: "length u' < k" by simp
  have "r = take k r @ drop k r" by simp
  with tk have r: "r = u' @ [125] @ ws @ [96, 96, 96] @ v' @ drop k r" by (metis append.assoc)
  have d1: "drop (length u') r = [125] @ ws @ [96, 96, 96] @ v' @ drop k r"
    by (subst r) simp
  have d2: "drop (Suc (length u')) r = ws @ 96 # [96, 96] @ v' @ drop k r"
    by (subst r) simp
  have "dropWhile is_space (drop (Suc (length u')) r) = 96 # [96, 96] @ v' @ drop k r"
    unfolding d2 using ws by (simp only: dropWhile_spaces not_space_simps not_False_eq_True)
  with d1 have "closes r (length u')" by (simp add: closes_def)
  with least j show False by blast
qed

lemma search_fence_group:
  assumes "re_search [fence_items tag] txt = Some m"
  shows "\<exists>g. group1 m = Some g \<and> fenced_object tag txt g \<and> \<not> closes_inside g"
proof -
  from re_search_Some [OF assms] obtain p t ms where pt: "txt = p @ t"
    and r: "run (fence_items tag) (MState (p = []) [] t 0 None) = m # ms"
    by (auto simp: re_results_single)
  let ?d = "drop (length tag) t"
  let ?r = "drop 1 (dropWhile is_space ?d)"
  let ?F = "\<lambda>k. if closes ?r k
              then [closed_state (p = []) (tag @ takeWhile is_space ?d @ [123]) ?r
                      (length tag + length (takeWhile is_space ?d)) k]
              else []"
  from r have c: "concat (map ?F [0..<Suc (length ?r)]) = m # ms"
    unfolding fence_run by (auto split: if_splits simp del: upt_Suc)
  from first_of_upt [OF c] obtain k where least: "\<forall>j<k. ?F j = []" and k: "?F k \<noteq> []"
    and h: "hd (?F k) = m" by blast
  from k have ck: "closes ?r k" by (auto split: if_splits)
  from least have lk: "\<forall>j<k. \<not> closes ?r j" by (auto split: if_splits)
  from h ck have m: "m = closed_state (p = []) (tag @ takeWhile is_space ?d @ [123]) ?r
                      (length tag + length (takeWhile is_space ?d)) k" by simp
  then have g: "group1 m = Some ([123] @ take k ?r @ [125])" by (simp add: closed_state_sel)
  define obj where "obj = [123] @ take k ?r @ [125]"
  from r have "m \<in> set (run (fence_items tag) (MState (p = []) [] t 0 None))" by simp
  from fence_sound [OF this] obtain ws1 body ws2 post where
    t: "t = tag @ ws1 @ [123] @ body @ [125] @ ws2 @ [96, 96, 96] @ post"
    and s: "spaces ws1" "spaces ws2" and g2: "group1 m = Some ([123] @ body @ [125])"
    by blast
  from g g2 have ob: "obj = [123] @ body @ [125]" by (simp add: obj_def)
  from pt t have "txt = p @ tag @ ws1 @ ([123] @ body @ [125]) @ ws2 @ U ''```'' @ post"
    by (simp add: U_def)
  with s ob have "fenced_object tag txt obj"
    unfolding fenced_object_def by blast
  moreover from g have "group1 m = Some obj" by (simp add: obj_def)
  moreover from first_close_not_inside [OF ck lk] have "\<not> closes_inside obj"
    by (simp add: obj_def)
  ultimately show ?thesis by blast
qed

subsection \<open>The span between the braces\<close>

text \<open>
  The span from the first opening brace through the last closing brace, if there is
  a closing brace behind the first opening one.
\<close>

definition brace_span :: "pystr \<Rightarrow> pystr option" where
  "brace_span s =
     (let a = dropWhile (\<lambda>c. c \<noteq> 123) s
      in if 125 \<in> set a then Some (rev (dropWhile (\<lambda>c. c \<noteq> 125) (rev a))) else None)"

lemma greedy_first:
  assumes "k \<le> n" and "\<And>j. k < j \<Longrightarrow> j \<le> n \<Longrightarrow> f j = []"
  shows "concat (map f (rev [0..<Suc n])) = f k @ concat (map f (rev [0..<k]))"
proof -
  from assms(1) obtain d where d: "Suc n = k + Suc d"
    by (metis add_Suc_right le_Suc_ex)
  have "[0..<k + Suc d] = [0..<k] @ [k..<k + Suc d]"
    by (rule upt_add_eq_append) simp
  also have "[k..<k + Suc d] = k # [Suc k..<k + Suc d]"
    by (rule upt_conv_Cons) simp
  finally have "[0..<Suc n] = [0..<k] @ [k] @ [Suc k..<Suc n]"
    unfolding d by simp
  then have "concat (map f (rev [0..<Suc n])) =
      concat (map f (rev [Suc k..<Suc n])) @ f k @ concat (map f (rev [0..<k]))"
    by (simp del: upt_Suc)
  moreover have "concat (map f (rev [Suc k..<Suc n])) = []"
    by (rule concat_map_Nil) (use assms(2) in auto)
  ultimately show ?thesis by simp
qed

lemma re_search_from_skip:
  assumes "\<And>p1 p2. p = p1 @ p2 \<Longrightarrow> p2 \<noteq> [] \<Longrightarrow> re_results alts (pre @ p1 = []) (p2 @ t) = []"
    and "re_results alts (pre @ p = []) t = m # ms"
  shows "re_search_from alts pre (p @ t) = Some m"
  using assms
proof (induction p arbitrary: pre)
  case Nil
  then show ?case by (cases t) simp_all
next
  case (Cons c p)
  from Cons.prems(1) [of "[]" "c # p"] have e: "re_results alts (pre = []) (c # p @ t) = []" by simp
  have "re_search_from alts (pre @ [c]) (p @ t) = Some m"
  proof (rule Cons.IH)
    fix p1 p2 assume "p = p1 @ p2" "p2 \<noteq> []"
    with Cons.prems(1) [of "c # p1" p2]
    show "re_results alts ((pre @ [c]) @ p1 = []) (p2 @ t) = []" by simp
  next
    from Cons.prems(2) show "re_results alts ((pre @ [c]) @ p = []) t = m # ms" by simp
  qed
  with e show ?case by simp
qed

lemma re_search_skip:
  assumes "\<And>p1 p2. p = p1 @ p2 \<Longrightarrow> p2 \<noteq> [] \<Longrightarrow> re_results alts (p1 = []) (p2 @ t) = []"
    and "re_results alts (p = []) t = m # ms"
  shows "re_search alts (p @ t) = Some m"
  unfolding re_search_def using re_search_from_skip [of p alts "[]" t m ms] assms by simp

definition brace_items :: "rx_item list" where
  "brace_items = [GroupOpen, Lit [123], Star AnyChar, Lit [125], GroupClose]"

lemma brace_pattern: "brace_span_pattern = [brace_items]"
  by (simp add: brace_span_pattern_def brace_items_def U_def)

definition brace_state :: "bool \<Rightarrow> pystr \<Rightarrow> nat \<Rightarrow> mstate" where
  "brace_state b r k =
     MState b ([123] @ take k r @ [125]) (drop (Suc k) r) 0 (Some ([123] @ take k r @ [125]))"

lemma brace_run:
  "run brace_items (MState b [] t 0 None) =
     (if prefix [123] t
      then concat (map (\<lambda>k. if prefix [125] (drop k (tl t)) then [brace_state b (tl t) k] else [])
                     (rev [0..<Suc (length (tl t))]))
      else [])"
proof (cases "prefix [123] t")
  case False
  then show ?thesis
    unfolding brace_items_def by (simp del: run.simps add: run_GroupOpen run_Lit_state)
next
  case True
  then obtain r where t: "t = 123 # r" by (auto simp: prefix_def)
  have "run [Lit [125], GroupClose] (consume k (MState b [123] r 0 None)) =
        (if prefix [125] (drop k r) then [brace_state b r k] else [])" for k
    by (simp del: run.simps add: run_Lit_state run_GroupClose run.simps(1) brace_state_def drop_Suc
        tl_drop)
  then have "run [Star AnyChar, Lit [125], GroupClose] (MState b [123] r 0 None) =
      concat (map (\<lambda>k. if prefix [125] (drop k r) then [brace_state b r k] else [])
                     (rev [0..<Suc (length r)]))"
    unfolding run_Star by (simp only: run_length_def in_class_AnyChar mstate.sel)
  with t show ?thesis
    unfolding brace_items_def
    by (simp del: run.simps upt_Suc add: run_GroupOpen run_Lit_state cong: if_cong)
qed

lemma brace_run_no_close:
  assumes "125 \<notin> set t"
  shows "run brace_items (MState b [] t 0 None) = []"
proof -
  have "\<not> prefix [125] (drop k (tl t))" for k
  proof
    assume "prefix [125] (drop k (tl t))"
    then have "125 \<in> set (drop k (tl t))" by (auto simp: prefix_def)
    then have "125 \<in> set (tl t)" by (rule in_set_dropD)
    then have "125 \<in> set t" by (cases t) auto
    with assms show False by simp
  qed
  then show ?thesis unfolding brace_run by (simp del: upt_Suc)
qed

lemma brace_run_last:
  assumes "125 \<notin> set v"
  shows "\<exists>ms. run brace_items (MState b [] (123 # u @ 125 # v) 0 None) =
           brace_state b (u @ 125 # v) (length u) # ms"
proof -
  let ?r = "u @ 125 # v"
  let ?f = "\<lambda>k. if prefix [125] (drop k ?r) then [brace_state b ?r k] else []"
  have later: "?f j = []" if "length u < j" for j
  proof -
    from that obtain d where "j = Suc (length u) + d"
      by (metis add_Suc less_iff_Suc_add)
    then have dj: "drop j ?r = drop d v" by simp
    have "set (drop d v) \<subseteq> set v" by (rule set_drop_subset)
    with assms have "125 \<notin> set (drop d v)" by blast
    then have "\<not> prefix [125] (drop d v)" by (auto simp: prefix_def)
    with dj show ?thesis by simp
  qed
  have "concat (map ?f (rev [0..<Suc (length ?r)])) =
        ?f (length u) @ concat (map ?f (rev [0..<length u]))"
    by (rule greedy_first) (use later in auto)
  moreover have "?f (length u) = [brace_state b ?r (length u)]" by simp
  ultimately show ?thesis unfolding brace_run by (simp del: upt_Suc cong: if_cong)
qed

lemma dropWhile_all:
  "\<forall>x\<in>set xs. P x \<Longrightarrow> \<not> P y \<Longrightarrow> dropWhile P (xs @ y # ys) = y # ys"
  by (induction xs) auto

lemma brace_span_split:
  assumes "125 \<notin> set v" and "\<forall>c\<in>set p. c \<noteq> 123"
  shows "brace_span (p @ 123 # u @ 125 # v) = Some (123 # u @ [125])"
proof -
  from assms(2) have "dropWhile (\<lambda>c. c \<noteq> 123) (p @ 123 # u @ 125 # v) = 123 # u @ 125 # v"
    by (intro dropWhile_all) auto
  moreover have "dropWhile (\<lambda>c. c \<noteq> 125) (rev v @ 125 # rev u @ [123]) = 125 # rev u @ [123]"
    using assms(1) by (intro dropWhile_all) auto
  ultimately show ?thesis by (simp add: brace_span_def)
qed

lemma brace_search_Some:
  assumes "125 \<notin> set v" and "\<forall>c\<in>set p. c \<noteq> 123"
  shows "\<exists>m. re_search brace_span_pattern (p @ 123 # u @ 125 # v) = Some m \<and>
             group1 m = Some (123 # u @ [125])"
proof -
  from brace_run_last [OF assms(1), of "p = []" u] obtain ms where
    r: "re_results [brace_items] (p = []) (123 # u @ 125 # v) =
          brace_state (p = []) (u @ 125 # v) (length u) # ms"
    by (auto simp: re_results_single)
  have "re_search [brace_items] (p @ 123 # u @ 125 # v) =
          Some (brace_state (p = []) (u @ 125 # v) (length u))"
  proof (rule re_search_skip [OF _ r])
    fix p1 p2 assume "p = p1 @ p2" "p2 \<noteq> []"
    with assms(2) have "\<not> prefix [123] (p2 @ 123 # u @ 125 # v)"
      by (cases p2) auto
    then show "re_results [brace_items] (p1 = []) (p2 @ 123 # u @ 125 # v) = []"
      by (simp add: re_results_single brace_run)
  qed
  then show ?thesis by (simp add: brace_pattern brace_state_def)
qed

lemma brace_search_None:
  assumes "brace_span s = None"
  shows "re_search brace_span_pattern s = None"
proof -
  let ?a = "dropWhile (\<lambda>c. c \<noteq> 123) s"
  from assms have na: "125 \<notin> set ?a" by (simp add: brace_span_def Let_def split: if_splits)
  have "re_results [brace_items] (p = []) t = []" if "s = p @ t" for p t
  proof (cases "prefix [123] t")
    case False
    then show ?thesis by (simp add: re_results_single brace_run)
  next
    case True
    then obtain r where t: "t = 123 # r" by (auto simp: prefix_def)
    have "?a = dropWhile (\<lambda>c. c \<noteq> 123) p @ t"
      unfolding that t by (rule dropWhile_append3) simp
    then have "set t \<subseteq> set ?a" by (metis set_append sup_ge2)
    with na have "125 \<notin> set t" by auto
    then show ?thesis by (simp add: re_results_single brace_run_no_close)
  qed
  then show ?thesis by (simp add: brace_pattern re_search_None_iff)
qed

section \<open>Stripping, trimming and the span selected\<close>

text \<open>A text that \<open>strip\<close> leaves as it is.\<close>

definition stripped :: "pystr \<Rightarrow> bool" where
  "stripped s \<longleftrightarrow> s = [] \<or> (\<not> is_space (hd s) \<and> \<not> is_space (last s))"


lemma py_strip_id: "stripped s \<Longrightarrow> py_strip s = s"
proof (cases "s = []")
  case True
  then show ?thesis by (simp add: py_strip_def py_lstrip_def py_rstrip_def)
next
  case False
  assume "stripped s"
  with False have h: "\<not> is_space (hd s)" and l: "\<not> is_space (last s)" by (auto simp: stripped_def)
  from False h have a: "dropWhile is_space s = s" by (cases s) auto
  from False l have "\<not> is_space (hd (rev s))" by (simp add: hd_rev)
  with False have "dropWhile is_space (rev s) = rev s" by (cases "rev s") auto
  with a show ?thesis by (simp add: py_strip_def py_lstrip_def py_rstrip_def)
qed

lemma hd_prefix: "prefix xs ys \<Longrightarrow> xs \<noteq> [] \<Longrightarrow> hd xs = hd ys"
  by (auto simp: prefix_def)

lemma py_strip_stripped: "stripped (py_strip s)"
proof -
  let ?a = "dropWhile is_space s"
  let ?b = "dropWhile is_space (rev ?a)"
  show ?thesis
  proof (cases "?b = []")
    case True
    then show ?thesis by (simp add: stripped_def py_strip_def py_lstrip_def py_rstrip_def)
  next
    case False
    then have hb: "\<not> is_space (hd ?b)" by (rule hd_dropWhile)
    from False have la: "last (rev ?b) = hd ?b" by (simp add: last_rev)
    from False have "?a \<noteq> []" by (metis dropWhile.simps(1) rev.simps(1))
    then have ha: "\<not> is_space (hd ?a)" by (rule hd_dropWhile)
    have "suffix ?b (rev ?a)" by (rule suffix_dropWhile)
    then have "prefix (rev ?b) ?a" by (metis rev_rev_ident suffix_to_prefix)
    moreover from False have "rev ?b \<noteq> []" by (metis rev_is_Nil_conv)
    ultimately have "hd (rev ?b) = hd ?a" by (rule hd_prefix)
    with ha hb la have "\<not> is_space (hd (rev ?b)) \<and> \<not> is_space (last (rev ?b))" by simp
    then show ?thesis
      unfolding stripped_def py_strip_def py_lstrip_def py_rstrip_def by blast
  qed
qed

lemma stripped_braces: "stripped (123 # body @ [125])"
  by (simp add: stripped_def)

lemma trim_to_brace_eq:
  "trim_to_brace s = (if 123 \<in> set s then dropWhile (\<lambda>c. c \<noteq> 123) s else s)"
proof (cases "123 \<in> set s")
  case False
  then show ?thesis by (simp add: trim_to_brace_def py_find_def)
next
  case True
  have d: "drop (length (takeWhile (\<lambda>c. c \<noteq> 123) s)) s = dropWhile (\<lambda>c. c \<noteq> 123) s"
    by (simp add: dropWhile_eq_drop)
  show ?thesis
  proof (cases "takeWhile (\<lambda>c. c \<noteq> 123) s = []")
    case e: True
    then have "dropWhile (\<lambda>c. c \<noteq> 123) s = s"
      by (metis append_Nil takeWhile_dropWhile_id)
    with True e show ?thesis by (simp add: trim_to_brace_def py_find_def)
  next
    case False
    with True d show ?thesis by (simp add: trim_to_brace_def py_find_def Let_def)
  qed
qed

lemma trim_to_brace_head: "trim_to_brace (123 # r) = 123 # r"
  by (simp add: trim_to_brace_eq)


lemma stripped_suffix:
  assumes "stripped s" and "suffix t s" and "t \<noteq> [] \<Longrightarrow> \<not> is_space (hd t)"
  shows "stripped t"
proof (cases "t = []")
  case True
  then show ?thesis by (simp add: stripped_def)
next
  case False
  with assms(2) have "last t = last s" "s \<noteq> []" by (auto simp: suffix_def)
  with assms False show ?thesis by (auto simp: stripped_def)
qed

lemma trim_to_brace_stripped:
  assumes "stripped s"
  shows "stripped (trim_to_brace s)"
proof (cases "123 \<in> set s")
  case False
  with assms show ?thesis by (simp add: trim_to_brace_eq)
next
  case True
  let ?d = "dropWhile (\<lambda>c. c \<noteq> 123) s"
  from True have "?d \<noteq> []" by simp
  then have "hd ?d = 123" using hd_dropWhile [of "\<lambda>c. c \<noteq> 123" s] by simp
  then have "\<not> is_space (hd ?d)" by simp
  with stripped_suffix [OF assms suffix_dropWhile, of "\<lambda>c. c \<noteq> 123"] True
  show ?thesis by (simp add: trim_to_brace_eq)
qed

lemma brace_span_SomeD:
  assumes "brace_span s \<noteq> None"
  shows "\<exists>p u v. s = p @ 123 # u @ 125 # v \<and> 125 \<notin> set v \<and> (\<forall>c\<in>set p. c \<noteq> 123)"
proof -
  let ?p = "takeWhile (\<lambda>c. c \<noteq> 123) s"
  let ?a = "dropWhile (\<lambda>c. c \<noteq> 123) s"
  from assms have m: "125 \<in> set ?a" by (simp add: brace_span_def Let_def split: if_splits)
  then have ne: "?a \<noteq> []" by (metis empty_iff list.set(1))
  then have "hd ?a = 123" using hd_dropWhile [of "\<lambda>c. c \<noteq> 123" s] by simp
  with ne obtain r where a: "?a = 123 # r" by (cases ?a) auto
  with m have "125 \<in> set r" by simp
  then obtain u v where r: "r = u @ 125 # v" "125 \<notin> set v" by (meson split_list_last)
  have "s = ?p @ ?a" by simp
  with a r have "s = ?p @ 123 # u @ 125 # v" by simp
  moreover have "\<forall>c\<in>set ?p. c \<noteq> 123" by (auto dest: set_takeWhileD)
  ultimately show ?thesis using r(2) by blast
qed

text \<open>The four ways in which the span is selected, in their order.\<close>

abbreviation "json_tag \<equiv> U ''```json''"
abbreviation "fence_mark \<equiv> U ''```''"

lemma select_span_cases:
  obtains (json) g where "fenced_object json_tag s g" "\<not> closes_inside g"
      "select_span s = Inr (py_strip g)"
  | (any) g where "\<not> (\<exists>obj. fenced_object json_tag s obj)" "fenced_object fence_mark s g"
      "\<not> closes_inside g" "select_span s = Inr (py_strip g)"
  | (brace) p u v where "\<not> (\<exists>obj. fenced_object json_tag s obj)"
      "\<not> (\<exists>obj. fenced_object fence_mark s obj)"
      "s = p @ 123 # u @ 125 # v" "125 \<notin> set v" "\<forall>c\<in>set p. c \<noteq> 123"
      "select_span s = Inr (py_strip (123 # u @ [125]))"
  | (whole) "\<not> (\<exists>obj. fenced_object json_tag s obj)" "\<not> (\<exists>obj. fenced_object fence_mark s obj)"
      "brace_span s = None" "select_span s = Inr (py_strip s)"
proof (cases "re_search json_fence_pattern s")
  case (Some m)
  from search_fence_group [OF Some [unfolded fence_patterns]] obtain g where
    "group1 m = Some g" "fenced_object json_tag s g" "\<not> closes_inside g" by blast
  with Some json show ?thesis by (simp add: select_span_def group_1_def)
next
  case nj: None
  then have nj': "\<not> (\<exists>obj. fenced_object json_tag s obj)"
    using search_fence_iff [of json_tag s] by (simp add: fence_patterns)
  show ?thesis
  proof (cases "re_search any_fence_pattern s")
    case (Some m)
    from search_fence_group [OF Some [unfolded fence_patterns]] obtain g where
      "group1 m = Some g" "fenced_object fence_mark s g" "\<not> closes_inside g" by blast
    with Some nj nj' any show ?thesis by (simp add: select_span_def group_1_def)
  next
    case na: None
    then have na': "\<not> (\<exists>obj. fenced_object fence_mark s obj)"
      using search_fence_iff [of fence_mark s] by (simp add: fence_patterns)
    show ?thesis
    proof (cases "brace_span s")
      case None
      from brace_search_None [OF this] nj na None nj' na' whole show ?thesis
        by (simp add: select_span_def)
    next
      case (Some g)
      then have "brace_span s \<noteq> None" by simp
      from brace_span_SomeD [OF this] obtain p u v where
        d: "s = p @ 123 # u @ 125 # v" "125 \<notin> set v" "\<forall>c\<in>set p. c \<noteq> 123" by blast
      from brace_search_Some [OF d(2,3), of u] obtain m where
        "re_search brace_span_pattern (p @ 123 # u @ 125 # v) = Some m"
        "group1 m = Some (123 # u @ [125])" by blast
      with d nj na have "select_span s = Inr (py_strip (123 # u @ [125]))"
        by (simp add: select_span_def group_1_def)
      with d nj' na' brace show ?thesis by blast
    qed
  qed
qed

subsection \<open>The removal of the fences\<close>











lemma strip_fences_stripped: "stripped (strip_fences s)"
  by (simp add: strip_fences_def Let_def py_strip_stripped)

lemma strip_fences_id: "stripped c \<Longrightarrow> \<not> prefix (U ''```'') c \<Longrightarrow> strip_fences c = c"
  by (simp add: strip_fences_def py_strip_id)

section \<open>The candidate of the recovery\<close>

lemma fenced_object_sublist: "fenced_object tag s g \<Longrightarrow> sublist g s"
proof -
  assume "fenced_object tag s g"
  then obtain pre ws1 ws2 post where "s = pre @ tag @ ws1 @ g @ ws2 @ U ''```'' @ post"
    unfolding fenced_object_def by blast
  then have "s = (pre @ tag @ ws1) @ g @ (ws2 @ U ''```'' @ post)" by simp
  then show ?thesis unfolding sublist_def by blast
qed

lemma fenced_object_form: "fenced_object tag s g \<Longrightarrow> \<exists>body. g = 123 # body @ [125]"
  unfolding fenced_object_def by auto

lemma fenced_object_mono:
  assumes "fenced_object tag c obj"
  shows "fenced_object tag (p @ c @ v) obj"
proof -
  from assms obtain pre ws1 body ws2 post where
    c: "c = pre @ tag @ ws1 @ obj @ ws2 @ U ''```'' @ post" and o: "obj = [123] @ body @ [125]"
    and s: "spaces ws1" "spaces ws2"
    unfolding fenced_object_def by blast
  from c have "p @ c @ v = (p @ pre) @ tag @ ws1 @ obj @ ws2 @ U ''```'' @ (post @ v)" by simp
  with o s show ?thesis unfolding fenced_object_def by blast
qed

lemma object_no_fence_prefix: "\<not> prefix (U ''```'') (123 # r)"
  by (simp add: U_def)

lemma select_span_object:
  assumes "\<not> (\<exists>obj. fenced_object json_tag (123 # body @ [125]) obj)"
    and "\<not> (\<exists>obj. fenced_object fence_mark (123 # body @ [125]) obj)"
  shows "select_span (123 # body @ [125]) = Inr (123 # body @ [125])"
proof -
  let ?c = "123 # body @ [125]"
  from brace_search_Some [of "[]" "[]" body] obtain m where
    m: "re_search brace_span_pattern ?c = Some m" "group1 m = Some ?c" by auto
  from assms(1) have j: "re_search json_fence_pattern ?c = None"
    using search_fence_iff [of json_tag ?c] by (simp add: fence_patterns)
  from assms(2) have a: "re_search any_fence_pattern ?c = None"
    using search_fence_iff [of fence_mark ?c] by (simp add: fence_patterns)
  from m j a show ?thesis
    by (simp add: select_span_def group_1_def py_strip_id [OF stripped_braces])
qed

lemma candidate_object:
  assumes "\<not> (\<exists>obj. fenced_object json_tag (123 # body @ [125]) obj)"
    and "\<not> (\<exists>obj. fenced_object fence_mark (123 # body @ [125]) obj)"
  shows "candidate (123 # body @ [125]) = Inr (123 # body @ [125])"
proof -
  have "strip_fences (123 # body @ [125]) = 123 # body @ [125]"
    by (rule strip_fences_id [OF stripped_braces object_no_fence_prefix])
  with select_span_object [OF assms] show ?thesis
    by (simp add: candidate_def trim_to_brace_head)
qed

lemma select_span_whole:
  assumes "\<not> (\<exists>obj. fenced_object json_tag s obj)" and "\<not> (\<exists>obj. fenced_object fence_mark s obj)"
    and "brace_span s = None"
  shows "select_span s = Inr (py_strip s)"
proof -
  from assms(1) have j: "re_search json_fence_pattern s = None"
    using search_fence_iff [of json_tag s] by (simp add: fence_patterns)
  from assms(2) have a: "re_search any_fence_pattern s = None"
    using search_fence_iff [of fence_mark s] by (simp add: fence_patterns)
  from j a brace_search_None [OF assms(3)] show ?thesis by (simp add: select_span_def)
qed

text \<open>How the candidate comes about.\<close>

lemma candidate_cases:
  obtains (fenced) g body where "g = 123 # body @ [125]" "\<not> closes_inside g"
      "sublist g (strip_fences s)" "candidate s = Inr g"
  | (brace) p u v where "\<not> (\<exists>obj. fenced_object json_tag (strip_fences s) obj)"
      "\<not> (\<exists>obj. fenced_object fence_mark (strip_fences s) obj)"
      "strip_fences s = p @ 123 # u @ 125 # v" "candidate s = Inr (123 # u @ [125])"
  | (whole) "\<not> (\<exists>obj. fenced_object json_tag (strip_fences s) obj)"
      "\<not> (\<exists>obj. fenced_object fence_mark (strip_fences s) obj)"
      "brace_span (strip_fences s) = None"
      "candidate s = Inr (trim_to_brace (strip_fences s))"
proof (cases "strip_fences s" rule: select_span_cases)
  case (json g)
  from fenced_object_form [OF json(1)] obtain body where b: "g = 123 # body @ [125]" ..
  with json have "candidate s = Inr g"
    by (simp add: candidate_def py_strip_id [OF stripped_braces] trim_to_brace_head)
  with b json fenced_object_sublist [OF json(1)] fenced show ?thesis by blast
next
  case (any g)
  from fenced_object_form [OF any(2)] obtain body where b: "g = 123 # body @ [125]" ..
  with any have "candidate s = Inr g"
    by (simp add: candidate_def py_strip_id [OF stripped_braces] trim_to_brace_head)
  with b any fenced_object_sublist [OF any(2)] fenced show ?thesis by blast
next
  case (brace p u v)
  then have "candidate s = Inr (123 # u @ [125])"
    by (simp add: candidate_def py_strip_id [OF stripped_braces] trim_to_brace_head)
  with brace that(2) show ?thesis by blast
next
  case whole
  then have "candidate s = Inr (trim_to_brace (strip_fences s))"
    by (simp add: candidate_def py_strip_id [OF strip_fences_stripped])
  with whole that(3) show ?thesis by blast
qed


lemma brace_span_trim: "brace_span (trim_to_brace s) = brace_span s"
  by (simp add: trim_to_brace_eq brace_span_def)

lemma trim_to_brace_idem: "trim_to_brace (trim_to_brace s) = trim_to_brace s"
  by (simp add: trim_to_brace_eq)

lemma trim_to_brace_suffix: "suffix (trim_to_brace s) s"
  by (simp add: trim_to_brace_eq suffix_dropWhile)

lemma candidate_idem:
  assumes "candidate s = Inr c" and "\<not> prefix (U ''```'') c"
  shows "candidate c = Inr c"
proof (cases s rule: candidate_cases)
  case (fenced g body)
  with assms have c: "c = 123 # body @ [125]" "\<not> closes_inside c" by simp_all
  from c(2) have "\<not> (\<exists>obj. fenced_object json_tag c obj)" "\<not> (\<exists>obj. fenced_object fence_mark c obj)"
    using fenced_closes_inside by blast+
  then show ?thesis unfolding c(1) by (rule candidate_object)
next
  case (brace p u v)
  with assms have c: "c = 123 # u @ [125]" by simp
  with brace(3) have t: "strip_fences s = p @ c @ v" by simp
  have "\<not> (\<exists>obj. fenced_object json_tag c obj)" "\<not> (\<exists>obj. fenced_object fence_mark c obj)"
    using brace(1,2) fenced_object_mono [of _ c _ p v] unfolding t by blast+
  then show ?thesis unfolding c by (rule candidate_object)
next
  case whole
  with assms have c: "c = trim_to_brace (strip_fences s)" by simp
  from trim_to_brace_suffix [of "strip_fences s"] obtain q where
    t: "strip_fences s = q @ c @ []" unfolding c suffix_def by auto
  have nf: "\<not> (\<exists>obj. fenced_object json_tag c obj)" "\<not> (\<exists>obj. fenced_object fence_mark c obj)"
    using whole(1,2) fenced_object_mono [of _ c _ q "[]"] unfolding t [symmetric] by blast+
  from whole(3) have nb: "brace_span c = None" unfolding c by (simp add: brace_span_trim)
  have st: "stripped c" unfolding c by (rule trim_to_brace_stripped [OF strip_fences_stripped])
  from strip_fences_id [OF st assms(2)] select_span_whole [OF nf nb] py_strip_id [OF st]
  have "candidate c = Inr (trim_to_brace c)" by (simp add: candidate_def)
  then show ?thesis unfolding c by (simp add: trim_to_brace_idem)
qed

section \<open>The raw field of the error object\<close>



section \<open>Feeding the raw field back\<close>

text \<open>
  Claim C9, as the code has it. When the candidate of an input is refused by the
  decoder, the recovery returns the error object with the candidate as \<open>raw\<close>; and
  when that candidate does not start with a fence, the recovery returns the same
  error object for it, with the same \<open>raw\<close>.
\<close>

theorem recovery_refeed_fixed_point:
  assumes "candidate s = Inr c" and "json_loads c = Inl JSONDecodeError"
    and "\<not> prefix (U ''```'') c"
  shows "extract_json_from_text s = Inr (error_object c) \<and>
         extract_json_from_text c = Inr (error_object c)"
  using assms candidate_idem [OF assms(1,3)] by (simp add: extract_json_from_text_def)

text \<open>
  The text of the specification's example, which is its own candidate, and a text
  whose candidate is a part of it.
\<close>

theorem recovery_refeed_fixed_point_witness:
  "extract_json_from_text (U ''not json at all'') = Inr (error_object (U ''not json at all'')) \<and>
   extract_json_from_text (U ''Sure: {\"a\": 1,} done'') = Inr (error_object (U ''{\"a\": 1,}'')) \<and>
   extract_json_from_text (U ''{\"a\": 1,}'') = Inr (error_object (U ''{\"a\": 1,}''))"
proof -
  have c1: "candidate (U ''not json at all'') = Inr (U ''not json at all'')"
    by (simp add: recovery_defs rx_defs str_defs)
  have j1: "json_loads (U ''not json at all'') = Inl JSONDecodeError"
    by (simp add: json_defs U_def)
  have p1: "\<not> prefix (U ''```'') (U ''not json at all'')" by (simp add: U_def)
  have c2: "candidate (U ''Sure: {\"a\": 1,} done'') = Inr (U ''{\"a\": 1,}'')"
    by (simp add: recovery_defs rx_defs str_defs)
  have j2: "json_loads (U ''{\"a\": 1,}'') = Inl JSONDecodeError"
    by (simp add: json_defs U_def)
  have p2: "\<not> prefix (U ''```'') (U ''{\"a\": 1,}'')" by (simp add: U_def)
  from recovery_refeed_fixed_point [OF c1 j1 p1] recovery_refeed_fixed_point [OF c2 j2 p2]
  show ?thesis by blast
qed

text \<open>
  Claim C9 as stated: every input with an error result gives the same error result
  again when \<open>raw\<close> is fed back. Of a text that starts with two fences the first
  pass removes one; \<open>raw\<close> starts with the other, which the second pass removes.
\<close>

theorem recovery_refeed_counterexample:
  "extract_json_from_text (U ''``````abc'') = Inr (error_object (U ''```abc'')) \<and>
   extract_json_from_text (U ''```abc'') = Inr (error_object (U ''abc''))"
  by (simp add: recovery_defs rx_defs json_defs str_defs)

section \<open>The precedence of the spans\<close>

text \<open>
  A text from its first opening brace on, if it has one: what is left when
  everything before that brace is trimmed.
\<close>

definition from_first_brace :: "pystr \<Rightarrow> pystr" where
  "from_first_brace t = (if 123 \<in> set t then dropWhile (\<lambda>c. c \<noteq> 123) t else t)"

text \<open>
  Claim C2, as the code has it. In the text that is left when whitespace and the
  enclosing fence have been stripped, the span is a fenced object with the tag
  \<open>json\<close> if there is one; else a fenced object without a tag if there is one; else
  the span from the first opening brace through the last closing brace if there is
  one; else the whole text. A fenced object is the text from an opening brace to a
  closing brace that stands between an opening fence and a closing fence with
  nothing but whitespace around it, and the one selected ends at its first closing
  brace that whitespace and a fence follow. The candidate is the span from its
  first opening brace on, it is what the decoder is given, and the result is what
  the decoder makes of it.
\<close>

theorem recovery_precedence:
  "\<exists>span c.
     (if \<exists>obj. fenced_object (U ''```json'') (strip_fences s) obj
        then fenced_object (U ''```json'') (strip_fences s) span \<and> \<not> closes_inside span
      else if \<exists>obj. fenced_object (U ''```'') (strip_fences s) obj
        then fenced_object (U ''```'') (strip_fences s) span \<and> \<not> closes_inside span
      else if brace_span (strip_fences s) \<noteq> None
        then brace_span (strip_fences s) = Some span
      else span = strip_fences s) \<and>
     c = from_first_brace span \<and>
     candidate s = Inr c \<and>
     extract_json_from_text s =
       (case json_loads c of
          Inr v \<Rightarrow> Inr v
        | Inl e \<Rightarrow> if e = JSONDecodeError then Inr (error_object c) else Inl e)"
proof -
  have r: "\<exists>c. c = from_first_brace span \<and> candidate s = Inr c \<and>
     extract_json_from_text s =
       (case json_loads c of
          Inr v \<Rightarrow> Inr v
        | Inl e \<Rightarrow> if e = JSONDecodeError then Inr (error_object c) else Inl e)"
    if "select_span (strip_fences s) = Inr (py_strip span)" "stripped span" for span
    using that
    by (simp add: candidate_def extract_json_from_text_def py_strip_id trim_to_brace_eq
        from_first_brace_def)
  show ?thesis
  proof (cases "strip_fences s" rule: select_span_cases)
    case (json g)
    from fenced_object_form [OF json(1)] have "stripped g" by (auto simp: stripped_braces)
    from r [OF json(3) this] obtain c where "c = from_first_brace g" "candidate s = Inr c"
      "extract_json_from_text s =
         (case json_loads c of
            Inr v \<Rightarrow> Inr v
          | Inl e \<Rightarrow> if e = JSONDecodeError then Inr (error_object c) else Inl e)"
      by blast
    with json(1,2) show ?thesis by (intro exI [of _ g] exI [of _ c] conjI) auto
  next
    case (any g)
    from fenced_object_form [OF any(2)] have "stripped g" by (auto simp: stripped_braces)
    from r [OF any(4) this] obtain c where "c = from_first_brace g" "candidate s = Inr c"
      "extract_json_from_text s =
         (case json_loads c of
            Inr v \<Rightarrow> Inr v
          | Inl e \<Rightarrow> if e = JSONDecodeError then Inr (error_object c) else Inl e)"
      by blast
    with any(1,2,3) show ?thesis by (intro exI [of _ g] exI [of _ c] conjI) auto
  next
    case (brace p u v)
    from brace_span_split [OF brace(4,5), of u] brace(3)
    have b: "brace_span (strip_fences s) = Some (123 # u @ [125])" by simp
    from r [OF brace(6) stripped_braces] obtain c where
      "c = from_first_brace (123 # u @ [125])" "candidate s = Inr c"
      "extract_json_from_text s =
         (case json_loads c of
            Inr v \<Rightarrow> Inr v
          | Inl e \<Rightarrow> if e = JSONDecodeError then Inr (error_object c) else Inl e)"
      by blast
    with brace(1,2) b show ?thesis
      by (intro exI [of _ "123 # u @ [125]"] exI [of _ c] conjI) auto
  next
    case whole
    from r [OF whole(4) strip_fences_stripped] obtain c where
      "c = from_first_brace (strip_fences s)" "candidate s = Inr c"
      "extract_json_from_text s =
         (case json_loads c of
            Inr v \<Rightarrow> Inr v
          | Inl e \<Rightarrow> if e = JSONDecodeError then Inr (error_object c) else Inl e)"
      by blast
    with whole(1,2,3) show ?thesis
      by (intro exI [of _ "strip_fences s"] exI [of _ c] conjI) auto
  qed
qed

text \<open>
  The two examples of the specification, a text with a fenced object of either
  kind, a text with a fenced object without a tag, and a text with an opening brace
  only.
\<close>

lemma no_fence_without_backtick: "96 \<notin> set s \<Longrightarrow> (\<exists>obj. fenced_object tag s obj) = False"
  unfolding fenced_object_def U_def by auto

lemma no_json_fence_without_j:
  "106 \<notin> set s \<Longrightarrow> (\<exists>obj. fenced_object (U ''```json'') s obj) = False"
  unfolding fenced_object_def U_def by auto

definition prose_example :: pystr where
  "prose_example = U ''Here is the result: {\"a\": 1} Thanks!''"

definition fenced_example :: pystr where
  "fenced_example = U ''```json'' @ [10] @ U ''{\"a\": 1}'' @ [10] @ U ''```''"

definition two_blocks_example :: pystr where
  "two_blocks_example = U ''x ``` {\"b\": 2} ``` ```json {\"a\": 1} ```''"

definition plain_block_example :: pystr where
  "plain_block_example = U ''x ``` {\"b\": 2} ``` y''"

definition open_brace_example :: pystr where
  "open_brace_example = U ''abc {''"

theorem recovery_precedence_witness:
  "extract_json_from_text prose_example = Inr (JObj [(U ''a'', JInt 1)]) \<and>
   extract_json_from_text fenced_example = Inr (JObj [(U ''a'', JInt 1)]) \<and>
   extract_json_from_text two_blocks_example = Inr (JObj [(U ''a'', JInt 1)]) \<and>
   extract_json_from_text plain_block_example = Inr (JObj [(U ''b'', JInt 2)]) \<and>
   extract_json_from_text open_brace_example = Inr (error_object (U ''{''))"
proof -
  let ?a = "U ''{\"a\": 1}''"
  let ?b = "U ''{\"b\": 2}''"
  have ja: "json_loads ?a = Inr (JObj [(U ''a'', JInt 1)])" by (simp add: json_defs U_def)
  have jb: "json_loads ?b = Inr (JObj [(U ''b'', JInt 2)])" by (simp add: json_defs U_def)
  have jo: "json_loads (U ''{'') = Inl JSONDecodeError" by (simp add: json_defs U_def)
  have fa: "from_first_brace ?a = ?a" by (simp add: from_first_brace_def U_def)
  have fb: "from_first_brace ?b = ?b" by (simp add: from_first_brace_def U_def)

  have s1: "strip_fences prose_example = prose_example"
    by (simp add: prose_example_def strip_fences_def str_defs)
  have n1: "(\<exists>obj. fenced_object tag prose_example obj) = False" for tag
    by (rule no_fence_without_backtick) (simp add: prose_example_def U_def)
  have b1: "brace_span prose_example = Some ?a"
    by (simp add: prose_example_def brace_span_def U_def)
  from recovery_precedence [of prose_example]
  have e1: "extract_json_from_text prose_example = Inr (JObj [(U ''a'', JInt 1)])"
    unfolding s1 n1 b1 using fa ja by auto

  have s2: "strip_fences fenced_example = ?a"
    by (simp add: fenced_example_def strip_fences_def fence_pattern_def rx_defs str_defs)
  have n2: "(\<exists>obj. fenced_object tag ?a obj) = False" for tag
    by (rule no_fence_without_backtick) (simp add: U_def)
  have b2: "brace_span ?a = Some ?a" by (simp add: brace_span_def U_def)
  from recovery_precedence [of fenced_example]
  have e2: "extract_json_from_text fenced_example = Inr (JObj [(U ''a'', JInt 1)])"
    unfolding s2 n2 b2 using fa ja by auto

  have s3: "strip_fences two_blocks_example = two_blocks_example"
    by (simp add: two_blocks_example_def strip_fences_def str_defs)
  have "two_blocks_example =
      U ''x ``` {\"b\": 2} ``` '' @ U ''```json'' @ U '' '' @ ?a @ U '' '' @ U ''```'' @ []"
    by (simp add: two_blocks_example_def U_def)
  moreover have "?a = [123] @ U ''\"a\": 1'' @ [125]" by (simp add: U_def)
  moreover have "spaces (U '' '')" by (simp add: spaces_def U_def is_space_def)
  ultimately have "fenced_object (U ''```json'') two_blocks_example ?a"
    unfolding fenced_object_def by blast
  then have y3: "(\<exists>obj. fenced_object (U ''```json'') two_blocks_example obj) = True" by blast
  have c3: "candidate two_blocks_example = Inr ?a"
    by (simp add: two_blocks_example_def recovery_defs rx_defs str_defs)
  from recovery_precedence [of two_blocks_example]
  have e3: "extract_json_from_text two_blocks_example = Inr (JObj [(U ''a'', JInt 1)])"
    unfolding s3 y3 c3 using ja by auto

  have s4: "strip_fences plain_block_example = plain_block_example"
    by (simp add: plain_block_example_def strip_fences_def str_defs)
  have n4: "(\<exists>obj. fenced_object (U ''```json'') plain_block_example obj) = False"
    by (rule no_json_fence_without_j) (simp add: plain_block_example_def U_def)
  have "plain_block_example = U ''x '' @ U ''```'' @ U '' '' @ ?b @ U '' '' @ U ''```'' @ U '' y''"
    by (simp add: plain_block_example_def U_def)
  moreover have "?b = [123] @ U ''\"b\": 2'' @ [125]" by (simp add: U_def)
  moreover have "spaces (U '' '')" by (simp add: spaces_def U_def is_space_def)
  ultimately have "fenced_object (U ''```'') plain_block_example ?b"
    unfolding fenced_object_def by blast
  then have y4: "(\<exists>obj. fenced_object (U ''```'') plain_block_example obj) = True" by blast
  have c4: "candidate plain_block_example = Inr ?b"
    by (simp add: plain_block_example_def recovery_defs rx_defs str_defs)
  from recovery_precedence [of plain_block_example]
  have e4: "extract_json_from_text plain_block_example = Inr (JObj [(U ''b'', JInt 2)])"
    unfolding s4 n4 y4 c4 using jb by auto

  have s5: "strip_fences open_brace_example = open_brace_example"
    by (simp add: open_brace_example_def strip_fences_def str_defs)
  have n5: "(\<exists>obj. fenced_object tag open_brace_example obj) = False" for tag
    by (rule no_fence_without_backtick) (simp add: open_brace_example_def U_def)
  have b5: "brace_span open_brace_example = None"
    by (simp add: open_brace_example_def brace_span_def U_def)
  have f5: "from_first_brace open_brace_example = U ''{''"
    by (simp add: open_brace_example_def from_first_brace_def U_def)
  from recovery_precedence [of open_brace_example]
  have e5: "extract_json_from_text open_brace_example = Inr (error_object (U ''{''))"
    unfolding s5 n5 b5 using f5 jo by auto
  from e1 e2 e3 e4 e5 show ?thesis by blast
qed

text \<open>
  Claim C2 as stated takes any fenced block with an object in it before the span
  between the braces. A block whose opening fence has another tag than \<open>json\<close> is
  matched by neither fence pattern: here the span runs from the brace of the block
  through the last closing brace of the text, and the decoder refuses it, where the
  object in the block is \<open>{"a": 1}\<close>.
\<close>

definition other_tag_example :: pystr where
  "other_tag_example = U ''x ```js {\"a\": 1} ``` {\"b\": 2}''"

theorem recovery_other_tag_counterexample:
  "other_tag_example = U ''x ```js '' @ U ''{\"a\": 1}'' @ U '' ``` {\"b\": 2}'' \<and>
   json_loads (U ''{\"a\": 1}'') = Inr (JObj [(U ''a'', JInt 1)]) \<and>
   extract_json_from_text other_tag_example
     = Inr (error_object (U ''{\"a\": 1} ``` {\"b\": 2}''))"
  by (simp add: other_tag_example_def recovery_defs rx_defs json_defs str_defs)

section \<open>What the recovery lets through\<close>

text \<open>
  A text of more than 4300 digits that does not start with \<open>0\<close> is one integer
  literal, and the conversion of its digits raises \<open>ValueError\<close>.
\<close>

lemma lex_big_integer:
  assumes d: "\<forall>c\<in>set s. is_ascii_digit c" and ne: "s \<noteq> []" and z: "hd s \<noteq> 48"
    and l: "length s > int_max_str_digits"
  shows "lex s = [TBigInt]"
proof -
  from ne obtain c cs where s: "s = c # cs" by (cases s) auto
  with d have c: "is_ascii_digit c" by simp
  then have c': "48 \<le> c" "c \<le> 57" by (simp_all add: is_ascii_digit_def)
  from z s have c0: "c \<noteq> 48" by simp
  from d s have tw: "takeWhile is_ascii_digit cs = cs" by (simp add: takeWhile_eq_all_conv)
  from l s have l': "int_max_str_digits < Suc (length cs)" by simp
  from c' c0 have c45: "c \<noteq> 45" by simp
  have n: "lex_number (c # cs) = Some (TBigInt, Suc (length cs))"
    using c c0 c45 l' by (simp add: lex_number_def lex_exponent_def Let_def tw)
  show ?thesis
    unfolding s using c' c0 by (subst lex.simps) (simp add: n U_def)
qed

lemma digits_no_special:
  assumes "\<forall>c\<in>set s. is_ascii_digit c"
  shows "96 \<notin> set s" "123 \<notin> set s" "\<forall>c\<in>set s. \<not> is_space c"
  using assms by (auto simp: is_ascii_digit_def is_space_def)

lemma candidate_plain:
  assumes b: "96 \<notin> set s" "123 \<notin> set s" and st: "stripped s"
  shows "candidate s = Inr s"
proof -
  from b(1) have np: "\<not> prefix (U ''```'') s" by (cases s) (auto simp: U_def)
  have sf: "strip_fences s = s" by (rule strip_fences_id [OF st np])
  have nf: "\<not> (\<exists>obj. fenced_object tag s obj)" for tag
    using no_fence_without_backtick [OF b(1)] by simp
  from b(2) have dw: "dropWhile (\<lambda>c. c \<noteq> 123) s = []" by auto
  have nb: "brace_span s = None" by (simp add: brace_span_def Let_def dw)
  from select_span_whole [OF nf nf nb] py_strip_id [OF st] b(2) sf
  show ?thesis by (simp add: candidate_def trim_to_brace_eq)
qed

lemma extract_big_integer:
  assumes d: "\<forall>c\<in>set s. is_ascii_digit c" and ne: "s \<noteq> []" and z: "hd s \<noteq> 48"
    and l: "length s > int_max_str_digits"
  shows "extract_json_from_text s = Inl ValueError"
proof -
  note ns = digits_no_special [OF d]
  from ne ns(3) have st: "stripped s" by (simp add: stripped_def)
  have "candidate s = Inr s" by (rule candidate_plain [OF ns(1,2) st])
  moreover have "json_loads s = Inl ValueError"
    by (simp add: json_loads_def lex_big_integer [OF assms])
  ultimately show ?thesis by (simp add: extract_json_from_text_def)
qed

text \<open>
  Claim C1 says that the recovery never raises, and the function is to return a
  mapping on every failure. Only \<open>json.JSONDecodeError\<close> is caught (line 148). The
  text of 4301 digits \<open>1\<close> has no fence and no brace, so it is handed to the decoder
  as it is, and the \<open>ValueError\<close> of the decoder reaches the caller.
\<close>

theorem extract_json_raises_value_error:
  "extract_json_from_text (replicate 4301 49) = Inl ValueError"
  by (rule extract_big_integer) (simp_all add: is_ascii_digit_def int_max_str_digits_def)

text \<open>
  The same holds for what the decoder raises when arrays are nested too deeply: a
  text of 1000 opening brackets is handed to the decoder as it is, and the
  \<open>RecursionError\<close> reaches the caller.
\<close>

lemma lex_brackets: "lex (replicate n 91) = replicate n TLBracket"
  by (induction n) (simp_all add: U_def)

lemma parse_deep_brackets:
  assumes "nesting_limit < length st + n" and "length st \<le> nesting_limit"
    and "e = EValue \<or> e = EValueOrClose"
  shows "parse_tokens e st (replicate n TLBracket) = Inl RecursionError"
  using assms
proof (induction n arbitrary: st e)
  case 0
  then show ?case by simp
next
  case (Suc n)
  from Suc.prems(3) have v: "json_step e st TLBracket = value_start st TLBracket"
    by (cases st; cases "hd st") auto
  show ?case
  proof (cases "length st < nesting_limit")
    case False
    with v show ?thesis by simp
  next
    case True
    with Suc.prems(1) have "nesting_limit < length (FArr [] # st) + n"
      "length (FArr [] # st) \<le> nesting_limit" by simp_all
    from Suc.IH [OF this, of EValueOrClose] True v show ?thesis by simp
  qed
qed

lemma extract_deep_brackets:
  assumes "nesting_limit < n"
  shows "extract_json_from_text (replicate n 91) = Inl RecursionError"
proof -
  from assms have n: "n \<noteq> 0" by auto
  then have "stripped (replicate n 91)"
    by (cases n) (auto simp: stripped_def is_space_def last_replicate)
  then have "candidate (replicate n 91) = Inr (replicate n 91)"
    by (intro candidate_plain) auto
  moreover from assms have "json_loads (replicate n 91) = Inl RecursionError"
    by (simp add: json_loads_def lex_brackets parse_deep_brackets)
  ultimately show ?thesis by (simp add: extract_json_from_text_def)
qed

lemma extract_json_raises_recursion_error:
  "extract_json_from_text (replicate 1000 91) = Inl RecursionError"
  by (rule extract_deep_brackets) (simp add: nesting_limit_def)

end
